theory Spec2Isabelle
  imports Complex_Main "HOL-Library.Word"
begin

unbundle bit_operations_syntax

section \<open>Data model\<close>

text \<open>
  The three programs share one data model. A network is a list of directed edges
  \<open>start[j] \<rightarrow> end[j]\<close> over nodes \<open>0 .. no_nodes - 1\<close>; C arrays are lists, read with
  \<open>xs ! i\<close> and written with \<open>xs[i := v]\<close>; C \<open>int\<close> values that can hold the
  sentinels \<open>-1\<close> and \<open>-2\<close> are \<open>int\<close>, counters and array positions are \<open>nat\<close>.

  The node classification \<open>#define ROOT 0, TREE 1, RET 2, LEAVE 3\<close> is a datatype.
  \<open>node_type\<close> is obtained from \<open>calloc\<close>, so a node that no rule of
  \<open>Node_Type_Inform1\<close> classifies keeps the value \<open>0\<close>, which is \<open>ROOT\<close>.
\<close>

datatype node_kind = ROOT | TREE | RET | LEAVE

text \<open>The flags of a reticulation: \<open>#define INNER 4, CROSS 5, REVISED 6\<close>.\<close>

definition INNER :: int where "INNER = 4"
definition CROSS :: int where "CROSS = 5"
definition REVISED :: int where "REVISED = 6"

text \<open>
  \<open>struct arb_tnode\<close>: a node of a component tree with its label, its mark and its
  children \<open>child[0 .. no_children - 1]\<close>.
\<close>

datatype arb_tnode = Node (label: int) (flag: int) (child: "arb_tnode list")

text \<open>
  \<open>struct components\<close>: one tree component. \<open>tree_com\<close> is a pointer that
  \<open>Modify\<close> may set to \<open>NULL\<close>; the \<open>next\<close> pointer is the tail of the list
  the component sits in.
\<close>

record components =
  ret_node :: int
  inner :: int
  comp_size :: int
  no_tree_node :: int
  tree_com :: "arb_tnode option"

section \<open>Node classification and validation (ClusterContainment.c)\<close>

text \<open>The two counters \<open>in\<close> and \<open>out\<close> of the inner loop over the edges.\<close>

definition in_degree :: "int list \<Rightarrow> nat \<Rightarrow> nat \<Rightarrow> nat" where
  "in_degree end no_edges i = length (filter (\<lambda>j. end ! j = int i) [0..<no_edges])"

definition out_degree :: "int list \<Rightarrow> nat \<Rightarrow> nat \<Rightarrow> nat" where
  "out_degree start no_edges i = length (filter (\<lambda>j. start ! j = int i) [0..<no_edges])"

text \<open>
  The body of the outer loop of \<open>Node_Type_Inform1\<close> for node \<open>i\<close>. The state is
  \<open>(node_type, check, check_node, root')\<close>; the five \<open>if\<close> statements run in the
  order of the source.
\<close>

definition classify_node ::
  "int list \<Rightarrow> int list \<Rightarrow> nat \<Rightarrow> nat \<Rightarrow>
   node_kind list \<times> int \<times> int \<times> int option \<Rightarrow> node_kind list \<times> int \<times> int \<times> int option" where
  "classify_node start end no_edges i s =
     (case s of (node_type, check, check_node, root') \<Rightarrow>
        let inn = in_degree end no_edges i;
            out = out_degree start no_edges i;
            is_root = (inn = 0 \<and> out > 1);
            check1 = (if is_root then 1 + check else check);
            root1 = (if is_root then Some (int i) else root');
            nt1 = (if is_root then node_type[i := ROOT] else node_type);
            nt2 = (if inn = 1 \<and> out = 0 then nt1[i := LEAVE] else nt1);
            nt3 = (if inn = 1 \<and> out \<ge> 1 then nt2[i := TREE] else nt2);
            nt4 = (if inn > 1 \<and> out = 1 then nt3[i := RET] else nt3);
            check_node1 = (if inn > 1 \<and> out > 1 then check_node + 1 else check_node)
        in (nt4, check1, check_node1, root1))"

text \<open>
  \<open>Node_Type_Inform1\<close> returns \<open>-2\<close> or \<open>0\<close> and writes \<open>node_type\<close> and
  \<open>*root\<close>; the variable \<open>root'\<close> of the model is \<open>None\<close> while the variable
  of \<open>main\<close> has not been assigned.
\<close>

definition Node_Type_Inform1 ::
  "node_kind list \<Rightarrow> nat \<Rightarrow> int list \<Rightarrow> int list \<Rightarrow> nat \<Rightarrow> int option \<Rightarrow>
   int \<times> node_kind list \<times> int option" where
  "Node_Type_Inform1 node_type no_nodes start end no_edges root' =
     (case fold (classify_node start end no_edges) [0..<no_nodes] (node_type, 0, 0, root') of
        (node_type', check, check_node, root') \<Rightarrow>
          (if check > 1 \<or> check_node > 0 then - 2 else 0, node_type', root'))"

section \<open>Level ordering of the reticulations (ClusterContainment.c)\<close>

text \<open>\<open>Is_In\<close> returns \<open>1\<close> when \<open>elt\<close> is among the first \<open>n\<close> entries, else \<open>-1\<close>.\<close>

definition Is_In :: "int \<Rightarrow> int list \<Rightarrow> nat \<Rightarrow> int" where
  "Is_In elt arr n = (if list_ex (\<lambda>i. elt = arr ! i) [0..<n] then 1 else - 1)"

text \<open>
  \<open>Child_Parent_Inform\<close>: \<open>ListExtend\<close> appends at the end of the linked list, so
  \<open>child_array[x]\<close> lists the heads of the edges leaving \<open>x\<close> in edge order, and
  \<open>parent_array[y]\<close> the tails of the edges entering \<open>y\<close>.
\<close>

definition Child_Parent_Inform ::
  "nat \<Rightarrow> int list \<Rightarrow> int list \<Rightarrow> nat \<Rightarrow> int list list \<times> int list list" where
  "Child_Parent_Inform no_nodes start end no_edges =
     (map (\<lambda>x. map (\<lambda>j. end ! j) (filter (\<lambda>j. start ! j = int x) [0..<no_edges])) [0..<no_nodes],
      map (\<lambda>y. map (\<lambda>j. start ! j) (filter (\<lambda>j. end ! j = int y) [0..<no_edges])) [0..<no_nodes])"

text \<open>
  \<open>Is_Tree_Component\<close> walks the children \<open>p\<close> of a node and calls itself on every
  child that is neither a leaf nor a reticulation. Nothing in the function bounds the
  depth of the recursion, so the model is a partial function: \<open>None\<close> stands for a
  call that does not return. The argument \<open>p\<close> is the rest of the linked list the
  \<open>while\<close> loop still has to visit, \<open>res\<close> the local variable of that name.
\<close>

partial_function (option) Is_Tree_Component_loop ::
  "node_kind list \<Rightarrow> int list list \<Rightarrow> int list \<Rightarrow> int \<Rightarrow> int option" where
  "Is_Tree_Component_loop node_type child_array p res =
     (case p of
        [] \<Rightarrow> Some res
      | c # next \<Rightarrow>
          if node_type ! nat c = LEAVE then Is_Tree_Component_loop node_type child_array next res
          else if node_type ! nat c = RET then Some 1
          else Option.bind (Is_Tree_Component_loop node_type child_array (child_array ! nat c) 0)
                 (\<lambda>res'. if res' = 1 then Some 1
                        else Is_Tree_Component_loop node_type child_array next res'))"

declare Is_Tree_Component_loop.simps [code]

definition Is_Tree_Component :: "int \<Rightarrow> node_kind list \<Rightarrow> int list list \<Rightarrow> int option" where
  "Is_Tree_Component rnode node_type child_array =
     Is_Tree_Component_loop node_type child_array (child_array ! nat rnode) 0"

text \<open>
  \<open>Count_Ret_Child\<close> adds to the three counters \<open>*count\<close>, \<open>*flag\<close> and \<open>*size\<close>,
  passed here as the triple \<open>(cnt, flg, sz)\<close>.
\<close>

partial_function (option) Count_Ret_Child_loop ::
  "nat \<Rightarrow> int list \<Rightarrow> node_kind list \<Rightarrow> int list list \<Rightarrow> int list \<Rightarrow> int \<times> int \<times> int \<Rightarrow>
   (int \<times> int \<times> int) option" where
  "Count_Ret_Child_loop n_r orig_rnodes node_type child_array p acc =
     (case p of
        [] \<Rightarrow> Some acc
      | c # next \<Rightarrow>
          (case acc of (cnt, flg, sz) \<Rightarrow>
             if node_type ! nat c = LEAVE
             then Count_Ret_Child_loop n_r orig_rnodes node_type child_array next (cnt, flg, sz + 1)
             else if node_type ! nat c = RET
             then Count_Ret_Child_loop n_r orig_rnodes node_type child_array next
                    (cnt + 1, if Is_In c orig_rnodes n_r = - 1 then flg + 1 else flg, sz)
             else Option.bind
                    (Count_Ret_Child_loop n_r orig_rnodes node_type child_array
                       (child_array ! nat c) (cnt, flg, sz + 1))
                    (\<lambda>acc'. Count_Ret_Child_loop n_r orig_rnodes node_type child_array next acc')))"

declare Count_Ret_Child_loop.simps [code]

definition Count_Ret_Child ::
  "int \<Rightarrow> int \<times> int \<times> int \<Rightarrow> nat \<Rightarrow> int list \<Rightarrow> node_kind list \<Rightarrow> int list list \<Rightarrow>
   (int \<times> int \<times> int) option" where
  "Count_Ret_Child rnode acc n_r orig_rnodes node_type child_array =
     Count_Ret_Child_loop n_r orig_rnodes node_type child_array (child_array ! nat rnode) acc"

definition Is_Empty :: "nat \<Rightarrow> int list \<Rightarrow> int" where
  "Is_Empty n_r r_nodes = (if list_all (\<lambda>i. r_nodes ! i = - 2) [0..<n_r] then 1 else 0)"

text \<open>
  The state of \<open>Sort_Rets_By_Level\<close> is \<open>(orig_rnodes, r_nodes, j)\<close>. First loop:
  a reticulation all of whose children are leaves (\<open>flag == 0\<close> after the inner
  \<open>while\<close>) is moved to \<open>r_nodes[j]\<close>.
\<close>

definition move_leaf_ret ::
  "node_kind list \<Rightarrow> int list list \<Rightarrow> nat \<Rightarrow> int list \<times> int list \<times> nat \<Rightarrow> int list \<times> int list \<times> nat" where
  "move_leaf_ret node_type child_array i s =
     (case s of (orig_rnodes, r_nodes, j) \<Rightarrow>
        if orig_rnodes ! i = - 2 then s
        else if list_all (\<lambda>c. node_type ! nat c = LEAVE) (child_array ! nat (orig_rnodes ! i))
        then (orig_rnodes[i := - 2], r_nodes[j := orig_rnodes ! i], j + 1)
        else s)"

text \<open>Second loop: reticulations with no reticulation below them.\<close>

fun move_tree_rets ::
  "node_kind list \<Rightarrow> int list list \<Rightarrow> nat list \<Rightarrow> int list \<times> int list \<times> nat \<Rightarrow>
   (int list \<times> int list \<times> nat) option" where
  "move_tree_rets node_type child_array [] s = Some s"
| "move_tree_rets node_type child_array (i # is) (orig_rnodes, r_nodes, j) =
     (if orig_rnodes ! i = - 2 then move_tree_rets node_type child_array is (orig_rnodes, r_nodes, j)
      else (case Is_Tree_Component (orig_rnodes ! i) node_type child_array of
              None \<Rightarrow> None
            | Some flg \<Rightarrow>
                if flg = 0
                then move_tree_rets node_type child_array is
                       (orig_rnodes[i := - 2], r_nodes[j := orig_rnodes ! i], j + 1)
                else move_tree_rets node_type child_array is (orig_rnodes, r_nodes, j)))"

text \<open>
  \<open>struct temp_node\<close> and one round of the third loop: the \<open>for\<close> loop that fills
  \<open>level_ret\<close> reads \<open>orig_rnodes\<close> and does not change it.
\<close>

record temp_node =
  tn_pnode :: int
  tn_value :: int
  tn_index :: nat

fun collect_level ::
  "nat \<Rightarrow> int list \<Rightarrow> node_kind list \<Rightarrow> int list list \<Rightarrow> nat list \<Rightarrow> temp_node list option" where
  "collect_level n_r orig_rnodes node_type child_array [] = Some []"
| "collect_level n_r orig_rnodes node_type child_array (i # is) =
     (if orig_rnodes ! i = - 2 then collect_level n_r orig_rnodes node_type child_array is
      else (case Count_Ret_Child (orig_rnodes ! i) (0, 0, 0) n_r orig_rnodes node_type child_array of
              None \<Rightarrow> None
            | Some (cnt, flg, sz) \<Rightarrow>
                (case collect_level n_r orig_rnodes node_type child_array is of
                   None \<Rightarrow> None
                 | Some rest \<Rightarrow>
                     Some (if flg > 0 \<and> flg = cnt
                           then \<lparr>tn_pnode = orig_rnodes ! i, tn_value = sz, tn_index = i\<rparr> # rest
                           else rest))))"

text \<open>
  \<open>qsort\<close> with \<open>tnode_comparator\<close> orders by descending \<open>value\<close>; C leaves the
  order of equal elements open, the model keeps them in their order of collection.
\<close>

definition qsort_level :: "temp_node list \<Rightarrow> temp_node list" where
  "qsort_level level_ret = sort_key (\<lambda>t. - tn_value t) level_ret"

definition emit_level :: "temp_node \<Rightarrow> int list \<times> int list \<times> nat \<Rightarrow> int list \<times> int list \<times> nat" where
  "emit_level t s =
     (case s of (orig_rnodes, r_nodes, j) \<Rightarrow>
        (orig_rnodes[tn_index t := - 2], r_nodes[j := tn_pnode t], j + 1))"

text \<open>
  The third loop, \<open>while (Is_Empty(n_r, orig_rnodes) == 0)\<close>. The source has no other
  exit from it.
\<close>

partial_function (option) level_loop ::
  "nat \<Rightarrow> node_kind list \<Rightarrow> int list list \<Rightarrow> int list \<times> int list \<times> nat \<Rightarrow>
   (int list \<times> int list \<times> nat) option" where
  "level_loop n_r node_type child_array s =
     (if Is_Empty n_r (fst s) = 0
      then (case collect_level n_r (fst s) node_type child_array [0..<n_r] of
              None \<Rightarrow> None
            | Some level_ret \<Rightarrow>
                level_loop n_r node_type child_array (fold emit_level (qsort_level level_ret) s))
      else Some s)"

declare level_loop.simps [code]

text \<open>\<open>Sort_Rets_By_Level\<close> leaves its result in \<open>r_nodes\<close>.\<close>

definition Sort_Rets_By_Level ::
  "int list \<Rightarrow> int list \<Rightarrow> nat \<Rightarrow> int list list \<Rightarrow> node_kind list \<Rightarrow> (int list \<times> int list) option" where
  "Sort_Rets_By_Level orig_rnodes r_nodes n_r child_array node_type =
     (case move_tree_rets node_type child_array [0..<n_r]
             (fold (move_leaf_ret node_type child_array) [0..<n_r] (orig_rnodes, r_nodes, 0)) of
        None \<Rightarrow> None
      | Some s \<Rightarrow>
          (case level_loop n_r node_type child_array s of
             None \<Rightarrow> None
           | Some (orig_rnodes', r_nodes', j) \<Rightarrow> Some (orig_rnodes', r_nodes')))"

section \<open>The command line program (ClusterContainment.c, \<open>main\<close>)\<close>

text \<open>
  \<open>Check_Name\<close> returns the first position below \<open>no_nodes\<close> that holds
  \<open>str1\<close>, or \<open>-1\<close>.
\<close>

definition Check_Name :: "string list \<Rightarrow> nat \<Rightarrow> string \<Rightarrow> int" where
  "Check_Name node_strings no_nodes str1 =
     (case List.find (\<lambda>i. str1 = node_strings ! i) [0..<no_nodes] of
        None \<Rightarrow> - 1
      | Some i \<Rightarrow> int i)"

definition Is_In_Str :: "string \<Rightarrow> string list \<Rightarrow> nat \<Rightarrow> int" where
  "Is_In_Str node leaves n = (if list_ex (\<lambda>i. node = leaves ! i) [0..<n] then 1 else 0)"

text \<open>
  The two reading loops of \<open>main\<close>. The leaf file is the list of its tokens, the
  network file the list of its token pairs, as \<open>fscanf\<close> delivers them. A name is
  stored the first time it is seen.
\<close>

definition read_leaf :: "string \<Rightarrow> string list \<Rightarrow> string list" where
  "read_leaf str1 leave_names =
     (if Check_Name leave_names (length leave_names) str1 = - 1 then leave_names @ [str1]
      else leave_names)"

definition read_edge ::
  "string \<times> string \<Rightarrow> string list \<times> int list \<times> int list \<Rightarrow> string list \<times> int list \<times> int list" where
  "read_edge e s =
     (case (e, s) of ((str1, str2), (node_strings, start, end)) \<Rightarrow>
        let u1 = Check_Name node_strings (length node_strings) str1;
            node_strings1 = (if u1 = - 1 then node_strings @ [str1] else node_strings);
            u1' = (if u1 = - 1 then int (length node_strings) else u1);
            u2 = Check_Name node_strings1 (length node_strings1) str2;
            node_strings2 = (if u2 = - 1 then node_strings1 @ [str2] else node_strings1);
            u2' = (if u2 = - 1 then int (length node_strings1) else u2)
        in (node_strings2, start @ [u1'], end @ [u2']))"

text \<open>
  \<open>Move_Leaves_Front\<close>: for the \<open>i\<close>-th leaf name the first node \<open>j\<close> of that
  name is exchanged with node \<open>i\<close>, in the names and in both edge arrays (through
  the temporary values \<open>-1\<close> and \<open>-2\<close>); a name that is not found ends the
  function with \<open>-2\<close>.
\<close>

definition exchange_label :: "nat \<Rightarrow> nat \<Rightarrow> int \<Rightarrow> int" where
  "exchange_label i j v =
     (let v1 = (if v = int i then - 1 else v);
          v2 = (if v1 = int j then - 2 else v1);
          v3 = (if v2 = - 1 then int j else v2)
      in if v3 = - 2 then int i else v3)"

fun Move_Leaves_Front_loop ::
  "string list \<Rightarrow> nat \<Rightarrow> nat list \<Rightarrow> string list \<times> int list \<times> int list \<Rightarrow>
   int \<times> string list \<times> int list \<times> int list" where
  "Move_Leaves_Front_loop leave_names no [] s = (0, s)"
| "Move_Leaves_Front_loop leave_names no (i # is) (ntk_names, start, end) =
     (case List.find (\<lambda>j. leave_names ! i = ntk_names ! j) [0..<no] of
        None \<Rightarrow> (- 2, ntk_names, start, end)
      | Some j \<Rightarrow>
          Move_Leaves_Front_loop leave_names no is
            (ntk_names[i := ntk_names ! j, j := ntk_names ! i],
             map (exchange_label i j) start, map (exchange_label i j) end))"

definition Move_Leaves_Front ::
  "string list \<Rightarrow> nat \<Rightarrow> int list \<Rightarrow> int list \<Rightarrow> string list \<Rightarrow> nat \<Rightarrow>
   int \<times> string list \<times> int list \<times> int list" where
  "Move_Leaves_Front ntk_names no start end leave_names n_l =
     Move_Leaves_Front_loop leave_names no [0..<n_l] (ntk_names, start, end)"

text \<open>
  What \<open>main\<close> has computed when it starts the search. The rest of \<open>main\<close> up to
  the return of \<open>Cluster_Containment\<close> (flags, components, super-degrees and the
  recursive search) is the parameter \<open>search\<close> of the model; \<open>main\<close> reads only
  its result \<open>res\<close>, and \<open>None\<close> is a search that does not return.
\<close>

record search_input =
  si_node_strings :: "string list"
  si_node_type :: "node_kind list"
  si_start :: "int list"
  si_end :: "int list"
  si_root :: "int option"
  si_n_l :: nat
  si_n_r :: nat
  si_r_nodes :: "int list"
  si_child_array :: "int list list"
  si_parent_array :: "int list list"
  si_no1 :: nat
  si_input_leaves :: "int list"
  si_in_cluster :: "int list"

text \<open>
  What the program prints, and the value \<open>main\<close> returns with it. \<open>Cluster_Reported\<close>
  is the message of \<open>Cluster_Containment\<close> when it returns \<open>50\<close>.
\<close>

datatype report =
  Usage | Bad_Topology | Unknown_Leaf | Trivial_Cluster | Cluster_Reported | Not_A_Cluster

text \<open>
  \<open>main\<close> is written in three parts, cut at its \<open>return\<close> statements. Last part:
  from the adjacency matrix to the final report. \<open>main\<close> returns \<open>0\<close> whatever
  \<open>res\<close> is.
\<close>

definition main_search ::
  "(search_input \<Rightarrow> int option) \<Rightarrow> string list \<Rightarrow> node_kind list \<Rightarrow> int list \<Rightarrow> int list \<Rightarrow>
   int option \<Rightarrow> nat \<Rightarrow> nat \<Rightarrow> nat \<Rightarrow> int list \<Rightarrow> int list \<Rightarrow> (report \<times> int) option" where
  "main_search search node_strings node_type start end root' n_l n_r no1 input_leaves in_cluster =
     (let no_nodes = length node_strings;
          no_edges = length start;
          orig_rnodes = map int (filter (\<lambda>i. node_type ! i = RET) [0..<no_nodes]);
          ca_pa = Child_Parent_Inform no_nodes start end no_edges
      in case Sort_Rets_By_Level orig_rnodes orig_rnodes n_r (fst ca_pa) node_type of
           None \<Rightarrow> None
         | Some (orig_rnodes', r_nodes) \<Rightarrow>
             (case search
                     \<lparr>si_node_strings = node_strings, si_node_type = node_type,
                      si_start = start, si_end = end, si_root = root',
                      si_n_l = n_l, si_n_r = n_r, si_r_nodes = r_nodes,
                      si_child_array = fst ca_pa, si_parent_array = snd ca_pa,
                      si_no1 = no1, si_input_leaves = input_leaves,
                      si_in_cluster = in_cluster\<rparr> of
                None \<Rightarrow> None
              | Some res \<Rightarrow> Some (if res \<noteq> 50 then Not_A_Cluster else Cluster_Reported, 0)))"

text \<open>
  Middle part: the leaves are moved to the front, the nodes are classified again, the
  input leaves are looked up among the first \<open>n_l\<close> nodes, and the trivial inputs are
  answered.
\<close>

definition network_leaves :: "node_kind list \<Rightarrow> nat \<Rightarrow> nat list" where
  "network_leaves node_type no_nodes = filter (\<lambda>i. node_type ! i = LEAVE) [0..<no_nodes]"

definition main_leaves ::
  "(search_input \<Rightarrow> int option) \<Rightarrow> string list \<Rightarrow> string list \<Rightarrow> node_kind list \<Rightarrow>
   int list \<Rightarrow> int list \<Rightarrow> int option \<Rightarrow> (report \<times> int) option" where
  "main_leaves search leave_names node_strings node_type start end root' =
     (let no1 = length leave_names;
          no_nodes = length node_strings;
          no_edges = length start;
          n_l = length (network_leaves node_type no_nodes);
          n_r = length (filter (\<lambda>i. node_type ! i = RET) [0..<no_nodes]);
          net_leaves = map (\<lambda>i. node_strings ! i) (network_leaves node_type no_nodes);
          moved = Move_Leaves_Front node_strings no_nodes start end net_leaves n_l;
          node_strings' = fst (snd moved);
          start' = fst (snd (snd moved));
          end' = snd (snd (snd moved));
          typed = Node_Type_Inform1 node_type no_nodes start' end' no_edges root';
          in_cluster = map (\<lambda>i. Is_In_Str (node_strings' ! i) leave_names no1) [0..<n_l];
          input_leaves = map int (filter (\<lambda>i. in_cluster ! i = 1) [0..<n_l]);
          check_leaves = length input_leaves
      in if check_leaves \<noteq> no1 then Some (Unknown_Leaf, 10)
         else if no1 = 1 \<or> n_l = no1 then Some (Trivial_Cluster, 0)
         else main_search search node_strings' (fst (snd typed)) start' end' (snd (snd typed))
                n_l n_r no1 input_leaves in_cluster)"

text \<open>
  First part: the argument count, the two files, and the validation of the network.
  \<open>node_type\<close> comes from \<open>calloc\<close>, all entries \<open>0 = ROOT\<close>.
\<close>

definition read_network :: "(string \<times> string) list \<Rightarrow> string list \<times> int list \<times> int list" where
  "read_network network_file = fold read_edge network_file ([], [], [])"

definition main ::
  "(search_input \<Rightarrow> int option) \<Rightarrow> int \<Rightarrow> string list \<Rightarrow> (string \<times> string) list \<Rightarrow>
   (report \<times> int) option" where
  "main search argc leaf_file network_file =
     (if argc \<noteq> 3 then Some (Usage, 10)
      else
        let leave_names = fold read_leaf leaf_file [];
            net = read_network network_file;
            node_strings = fst net;
            start = fst (snd net);
            end = snd (snd net);
            no_nodes = length node_strings;
            typed = Node_Type_Inform1 (replicate no_nodes ROOT) no_nodes start end (length start) None
        in if fst typed < 0 then Some (Bad_Topology, 10)
           else main_leaves search leave_names node_strings (fst (snd typed)) start end
                  (snd (snd typed)))"

section \<open>Component trees (ClusterContainment.c)\<close>

text \<open>
  \<open>Build_Comp_Revised\<close> expands the node \<open>l\<close> of a component tree: a node
  classified \<open>LEAVE\<close> or \<open>RET\<close> stays as it is, any other node gets one child for
  each entry of \<open>child_array[l]\<close>, and each child is expanded in turn. The result is the
  tree below \<open>l\<close> with the amounts added to \<open>*size\<close> and \<open>*no_tree_node\<close>. The
  recursion of the source is not bounded; the model counts it down with \<open>fuel\<close> and
  answers \<open>None\<close> when the fuel is used up.
\<close>

fun Build_Comp_Revised ::
  "nat \<Rightarrow> int \<Rightarrow> int list list \<Rightarrow> node_kind list \<Rightarrow> (arb_tnode \<times> int \<times> int) option"
and Build_children ::
  "nat \<Rightarrow> int list \<Rightarrow> int list list \<Rightarrow> node_kind list \<Rightarrow> (arb_tnode list \<times> int \<times> int) option" where
  "Build_Comp_Revised 0 l child_array node_type = None"
| "Build_Comp_Revised (Suc fuel) l child_array node_type =
     (if node_type ! nat l = LEAVE \<or> node_type ! nat l = RET then Some (Node l 0 [], 0, 0)
      else (case Build_children fuel (child_array ! nat l) child_array node_type of
              None \<Rightarrow> None
            | Some (ts, sz, ntn) \<Rightarrow> Some (Node l 0 ts, sz, ntn)))"
| "Build_children fuel [] child_array node_type = Some ([], 0, 0)"
| "Build_children fuel (c # cs) child_array node_type =
     (case Build_Comp_Revised fuel c child_array node_type of
        None \<Rightarrow> None
      | Some (t, sz, ntn) \<Rightarrow>
          (case Build_children fuel cs child_array node_type of
             None \<Rightarrow> None
           | Some (ts, sz', ntn') \<Rightarrow>
               Some (t # ts, 1 + sz + sz',
                     (if node_type ! nat c \<noteq> RET then 1 else 0) + ntn + ntn')))"

section \<open>The driver of the search (ClusterContainment.c, \<open>Cluster_Containment\<close>)\<close>

text \<open>
  \<open>Is_Stable\<close> on a node of a component tree. The children of a node are never
  \<open>NULL\<close>; the \<open>NULL\<close> test of the source is met by the component pointer only.
\<close>

fun Is_Stable_node :: "arb_tnode \<Rightarrow> node_kind list \<Rightarrow> int list \<Rightarrow> int list \<Rightarrow> int" where
  "Is_Stable_node (Node l f cs) node_type inner_flag lf_below =
     (if node_type ! nat l = LEAVE then 1
      else if node_type ! nat l = RET
      then (if inner_flag ! nat l = INNER \<and> lf_below ! nat l \<ge> 0 then 1 else 0)
      else (if list_ex (\<lambda>c. Is_Stable_node c node_type inner_flag lf_below = 1) cs then 1 else 0))"

definition Is_Stable :: "arb_tnode option \<Rightarrow> node_kind list \<Rightarrow> int list \<Rightarrow> int list \<Rightarrow> int" where
  "Is_Stable comp_ptr node_type inner_flag lf_below =
     (case comp_ptr of
        None \<Rightarrow> - 1
      | Some t \<Rightarrow> Is_Stable_node t node_type inner_flag lf_below)"

text \<open>
  \<open>Find_UnStable\<close> fills four arrays; each is the list of the entries written so far,
  in the order \<open>(unstb_rets_in, unstb_rets_out, lf_in_comp, lf_out_comp)\<close>, and the four
  counters of the source are the lengths of the lists.
\<close>

fun Find_UnStable ::
  "arb_tnode \<Rightarrow> int list \<Rightarrow> nat \<Rightarrow> node_kind list \<Rightarrow> int list \<Rightarrow> int list \<Rightarrow>
   int list \<times> int list \<times> int list \<times> int list \<Rightarrow> int list \<times> int list \<times> int list \<times> int list" where
  "Find_UnStable (Node l f cs) input_leaves no_leaf node_type inner_flag lf_below acc =
     (if node_type ! nat l = LEAVE then acc
      else if node_type ! nat l = RET
      then (if inner_flag ! nat l = CROSS
            then (let leaf = lf_below ! nat l
                  in if leaf = - 2 then acc
                     else (case acc of (unstb_rets_in, unstb_rets_out, lf_in_comp, lf_out_comp) \<Rightarrow>
                             if Is_In leaf input_leaves no_leaf = 1
                             then (unstb_rets_in @ [l], unstb_rets_out, lf_in_comp @ [leaf], lf_out_comp)
                             else (unstb_rets_in, unstb_rets_out @ [l], lf_in_comp, lf_out_comp @ [leaf])))
            else acc)
      else fold (\<lambda>c a. Find_UnStable c input_leaves no_leaf node_type inner_flag lf_below a) cs acc)"

text \<open>
  One call of \<open>Cluster_Containment\<close> on the component list \<open>ptr\<close> takes one of six
  ways. The model follows the tests of the source in their order and names the way
  taken; the bodies of the stable branch and of the split, and the recursive calls, are
  not unfolded.
  \<^item> \<open>Return_Empty_List\<close>: \<open>p == NULL\<close>, the call returns \<open>0\<close>;
  \<^item> \<open>Skip_Null_Tree\<close>: \<open>p->tree_com == NULL\<close>, \<open>Modify2\<close> and the rest of the list;
  \<^item> \<open>Stable_Branch\<close>: \<open>Is_Stable(...) == 1\<close>, the stable-component resolver;
  \<^item> \<open>Report_Cluster v\<close>: unstable branch with \<open>no_in_lfb == no1\<close>, the input is
    printed as the soft cluster of node \<open>v\<close> and the call returns \<open>50\<close>;
  \<^item> \<open>Split_Network\<close>: unstable branch, the network is copied and both copies are searched;
  \<^item> \<open>Skip_Unstable\<close>: unstable branch without a reticulation to split on.
\<close>

datatype cc_branch =
    Return_Empty_List
  | Skip_Null_Tree
  | Stable_Branch
  | Report_Cluster int
  | Split_Network "int list" "int list" "int list" "int list"
  | Skip_Unstable

definition Cluster_Containment_branch ::
  "components list \<Rightarrow> node_kind list \<Rightarrow> int list \<Rightarrow> int list \<Rightarrow> nat \<Rightarrow> int list \<Rightarrow> cc_branch" where
  "Cluster_Containment_branch ptr node_type inner_flag lf_below no1 input_leaves =
     (case ptr of
        [] \<Rightarrow> Return_Empty_List
      | p # next \<Rightarrow>
          (case tree_com p of
             None \<Rightarrow> Skip_Null_Tree
           | Some t \<Rightarrow>
               if Is_Stable (tree_com p) node_type inner_flag lf_below = 1 then Stable_Branch
               else (case Find_UnStable t input_leaves no1 node_type inner_flag lf_below ([], [], [], []) of
                       (unstb_rets_in, unstb_rets_out, lf_in_comp, lf_out_comp) \<Rightarrow>
                         if length lf_in_comp = no1 then Report_Cluster (label t)
                         else if length unstb_rets_in > 0 \<or> length unstb_rets_out > 0
                         then Split_Network unstb_rets_in unstb_rets_out lf_in_comp lf_out_comp
                         else Skip_Unstable)))"

text \<open>The value a call returns where the way taken fixes it.\<close>

fun returned :: "cc_branch \<Rightarrow> int option" where
  "returned Return_Empty_List = Some 0"
| "returned (Report_Cluster v) = Some 50"
| "returned b = None"

text \<open>
  The loop that follows \<open>Replace_Ret_Revised\<close> in the stable branch, as it stands in
  ClusterContainment.c: one pass over \<open>r_nodes[0 .. n_r - 1]\<close>, writing
  \<open>super_deg\<close> and \<open>inner_flag\<close>.
\<close>

definition normalize_ret :: "int \<Rightarrow> int list \<times> int list \<Rightarrow> int list \<times> int list" where
  "normalize_ret r s =
     (case s of (inner_flag, super_deg) \<Rightarrow>
        if inner_flag ! nat r = REVISED
        then (if super_deg ! nat r > 2
              then (inner_flag[nat r := CROSS], super_deg[nat r := super_deg ! nat r - 1])
              else (inner_flag[nat r := INNER], super_deg[nat r := 1]))
        else s)"

definition normalize_revised :: "int list \<Rightarrow> nat \<Rightarrow> int list \<times> int list \<Rightarrow> int list \<times> int list" where
  "normalize_revised r_nodes n_r s = fold (\<lambda>i. normalize_ret (r_nodes ! i)) [0..<n_r] s"

text \<open>The same loop as it stands in SoftRFDist_parallel.c.\<close>

definition normalize_ret_parallel :: "int \<Rightarrow> int list \<times> int list \<Rightarrow> int list \<times> int list" where
  "normalize_ret_parallel r s =
     (case s of (inner_flag, super_deg) \<Rightarrow>
        if inner_flag ! nat r = REVISED
        then (if super_deg ! nat r > 2
              then (inner_flag[nat r := CROSS], super_deg[nat r := super_deg ! nat r - 1])
              else (inner_flag[nat r := INNER], super_deg[nat r := 1]))
        else s)"

definition normalize_revised_parallel ::
  "int list \<Rightarrow> nat \<Rightarrow> int list \<times> int list \<Rightarrow> int list \<times> int list" where
  "normalize_revised_parallel r_nodes n_r s =
     fold (\<lambda>i. normalize_ret_parallel (r_nodes ! i)) [0..<n_r] s"

section \<open>Subset enumeration (SoftRFDist_print.c)\<close>

text \<open>\<open>i4vec_indicator0\<close> writes \<open>a[i] = i\<close> for \<open>i < n\<close>.\<close>

definition i4vec_indicator0 :: "nat \<Rightarrow> int list \<Rightarrow> int list" where
  "i4vec_indicator0 n a = fold (\<lambda>i a. a[i := int i]) [0..<n] a"

text \<open>
  \<open>ksub_next\<close>: \<open>jsave\<close> is the first position \<open>j < k - 1\<close> with
  \<open>a[j] + 1 < a[j + 1]\<close>, or \<open>k - 1\<close> when the loop ends without \<open>break\<close>.
  The function is called with \<open>k \<ge> 1\<close> only.
\<close>

definition ksub_next :: "nat \<Rightarrow> nat \<Rightarrow> int list \<Rightarrow> int list" where
  "ksub_next n k a =
     (if a ! 0 < int n - int k + 1
      then (let jsave = (case List.find (\<lambda>j. a ! j + 1 < a ! (j + 1)) [0..<k - 1] of
                           None \<Rightarrow> k - 1
                         | Some j \<Rightarrow> j);
                a' = i4vec_indicator0 jsave a
            in a'[jsave := a' ! jsave + 1])
      else a)"

text \<open>
  \<open>nChoosek\<close> computes in \<open>int\<close>. A product outside the range of a 32-bit \<open>int\<close>
  is undefined behaviour in C; the model answers \<open>None\<close> there. All operands of the
  division are non-negative, where C's \<open>/\<close> is \<open>div\<close>.
\<close>

definition int_range :: "int \<Rightarrow> bool" where
  "int_range v = (- (2 ^ 31) \<le> v \<and> v < 2 ^ 31)"

fun nChoosek_loop :: "int \<Rightarrow> nat list \<Rightarrow> int \<Rightarrow> int option" where
  "nChoosek_loop n [] result = Some result"
| "nChoosek_loop n (i # is) result =
     (if int_range (result * (n - int i + 1))
      then nChoosek_loop n is (result * (n - int i + 1) div int i)
      else None)"

definition nChoosek :: "int \<Rightarrow> int \<Rightarrow> int option" where
  "nChoosek n k =
     (if k > n then Some 0
      else let k' = (if k * 2 > n then n - k else k)
           in if k' = 0 then Some 1 else nChoosek_loop n [2..<nat k' + 1] n)"

text \<open>
  The arrays \<open>Subset_CCP\<close> hands to \<open>Is_Cluster\<close>, in the order of the calls: the
  array from \<open>calloc\<close> after \<open>i4vec_indicator0\<close>, then the result of each of the
  \<open>no - 1\<close> calls of \<open>ksub_next\<close> on the same array.
\<close>

fun ksub_iterate :: "nat \<Rightarrow> nat \<Rightarrow> nat \<Rightarrow> int list \<Rightarrow> int list list" where
  "ksub_iterate n k 0 a = []"
| "ksub_iterate n k (Suc m) a = ksub_next n k a # ksub_iterate n k m (ksub_next n k a)"

definition Subset_CCP_inputs :: "nat \<Rightarrow> nat \<Rightarrow> int \<Rightarrow> int list list" where
  "Subset_CCP_inputs n k no =
     i4vec_indicator0 k (replicate k 0) #
     ksub_iterate n k (nat (no - 1)) (i4vec_indicator0 k (replicate k 0))"

section \<open>Soft Robinson-Foulds distance (SoftRFDist_print.c)\<close>

text \<open>\<open>struct network\<close>, as \<open>Preprocess_Network\<close> leaves it.\<close>

record network =
  net_root :: int
  net_n_r :: nat
  net_n_l :: nat
  net_no_nodes :: nat
  net_node_strings :: "string list"
  net_child_array :: "int list list"
  net_lf_below :: "int list"
  net_inner_flag :: "int list"
  net_super_deg :: "int list"
  net_node_type :: "node_kind list"
  net_r_nodes :: "int list"
  net_all_cps :: "components list"

text \<open>\<open>pop\<close> counts the one bits of an \<open>unsigned int\<close> by clearing the lowest one.\<close>

function pop_loop :: "32 word \<Rightarrow> int \<Rightarrow> int" where
  "pop_loop x n = (if x \<noteq> 0 then pop_loop (x AND (x - 1)) (n + 1) else n)"
  by pat_completeness auto
termination
proof (relation "measure (\<lambda>(x, n). unat x)")
  show "wf (measure (\<lambda>(x :: 32 word, n :: int). unat x))"
    by simp
next
  fix x :: "32 word" and n :: int
  assume "x \<noteq> 0"
  then have "x - 1 < x"
    by (simp add: word_less_nat_alt unat_minus_one unat_gt_0)
  moreover have "x AND (x - 1) \<le> x - 1"
    by (rule word_and_le1)
  ultimately have "x AND (x - 1) < x"
    by simp
  then show "((x AND (x - 1), n + 1), (x, n)) \<in> measure (\<lambda>(x, n). unat x)"
    by (simp add: word_less_nat_alt)
qed

definition pop :: "32 word \<Rightarrow> int" where
  "pop x = pop_loop x 0"

text \<open>
  \<open>BITSET(a, b)\<close> with \<open>WLEN = 32\<close>: bit \<open>b % 32\<close> of word \<open>b / 32\<close> is set.
\<close>

definition BITSET :: "32 word list \<Rightarrow> nat \<Rightarrow> 32 word list" where
  "BITSET a b = a[b div 32 := a ! (b div 32) OR push_bit (b mod 32) 1]"

text \<open>
  \<open>Is_Cluster\<close> works on \<open>(res1, res2, *no_res)\<close>. For each network it copies the
  flag arrays and the components, skips the leading components whose reticulation sits
  on a leaf, and calls \<open>Cluster_Containment\<close> on the copies. That part is the parameter
  \<open>cc\<close> of the model: a function of the network, of \<open>r\<close>, \<open>input_leaves\<close> and
  \<open>in_cluster\<close>, with \<open>None\<close> for a search that does not return. The first
  network is searched before the second.
\<close>

definition Is_Cluster ::
  "(network \<Rightarrow> nat \<Rightarrow> int list \<Rightarrow> int list \<Rightarrow> int option) \<Rightarrow> int list \<Rightarrow> nat \<Rightarrow>
   32 word list \<times> 32 word list \<times> nat \<Rightarrow> network \<Rightarrow> network \<Rightarrow>
   (32 word list \<times> 32 word list \<times> nat) option" where
  "Is_Cluster cc input_leaves r s net1 net2 =
     (case s of (res1, res2, no_res) \<Rightarrow>
        if r = 0 \<or> r = net_n_l net1 then Some s
        else if r = 1 then Some (BITSET res1 no_res, BITSET res2 no_res, no_res + 1)
        else
          let in_cluster = fold (\<lambda>j ic. ic[nat (input_leaves ! j) := 1]) [0..<r]
                             (replicate (net_n_l net1) (0 :: int))
          in case cc net1 r input_leaves in_cluster of
               None \<Rightarrow> None
             | Some res \<Rightarrow>
                 (case cc net2 r input_leaves in_cluster of
                    None \<Rightarrow> None
                  | Some res' \<Rightarrow>
                      Some (if res > 0 then BITSET res1 no_res else res1,
                            if res' > 0 then BITSET res2 no_res else res2,
                            no_res + 1)))"

text \<open>\<open>Subset_CCP\<close>: one call of \<open>Is_Cluster\<close> for each array of the enumeration.\<close>

fun Is_Cluster_all ::
  "(network \<Rightarrow> nat \<Rightarrow> int list \<Rightarrow> int list \<Rightarrow> int option) \<Rightarrow> nat \<Rightarrow> int list list \<Rightarrow>
   32 word list \<times> 32 word list \<times> nat \<Rightarrow> network \<Rightarrow> network \<Rightarrow>
   (32 word list \<times> 32 word list \<times> nat) option" where
  "Is_Cluster_all cc k [] s net1 net2 = Some s"
| "Is_Cluster_all cc k (a # as) s net1 net2 =
     (case Is_Cluster cc a k s net1 net2 of
        None \<Rightarrow> None
      | Some s' \<Rightarrow> Is_Cluster_all cc k as s' net1 net2)"

definition Subset_CCP ::
  "(network \<Rightarrow> nat \<Rightarrow> int list \<Rightarrow> int list \<Rightarrow> int option) \<Rightarrow> nat \<Rightarrow> int \<Rightarrow>
   32 word list \<times> 32 word list \<times> nat \<Rightarrow> network \<Rightarrow> network \<Rightarrow>
   (32 word list \<times> 32 word list \<times> nat) option" where
  "Subset_CCP cc k no s net1 net2 =
     Is_Cluster_all cc k (Subset_CCP_inputs (net_n_l net1) k no) s net1 net2"

text \<open>
  \<open>Find_Cluster_Distance\<close> after the two calls of \<open>Preprocess_Network\<close>. The two
  leaf checks end the program with \<open>exit(10)\<close>. \<open>no_res = 1U << n_l\<close> is \<open>2 ^ n_l\<close>
  (for \<open>n_l \<le> 31\<close>), and the sum of the bit counts is halved. The source adds the
  counts in a \<open>float\<close>; the model adds them exactly.
\<close>

datatype srfd_result = Leaf_Count_Mismatch | Leaf_Name_Mismatch | Distance real

fun subset_sizes ::
  "(network \<Rightarrow> nat \<Rightarrow> int list \<Rightarrow> int list \<Rightarrow> int option) \<Rightarrow> nat list \<Rightarrow>
   32 word list \<times> 32 word list \<times> nat \<Rightarrow> network \<Rightarrow> network \<Rightarrow>
   (32 word list \<times> 32 word list \<times> nat) option" where
  "subset_sizes cc [] s net1 net2 = Some s"
| "subset_sizes cc (k # ks) s net1 net2 =
     (case nChoosek (int (net_n_l net1)) (int k) of
        None \<Rightarrow> None
      | Some no \<Rightarrow>
          (case Subset_CCP cc k no s net1 net2 of
             None \<Rightarrow> None
           | Some s' \<Rightarrow> subset_sizes cc ks s' net1 net2))"

definition Find_Cluster_Distance ::
  "(network \<Rightarrow> nat \<Rightarrow> int list \<Rightarrow> int list \<Rightarrow> int option) \<Rightarrow> network \<Rightarrow> network \<Rightarrow>
   srfd_result option" where
  "Find_Cluster_Distance cc net1 net2 =
     (if net_n_l net1 \<noteq> net_n_l net2 then Some Leaf_Count_Mismatch
      else if list_ex (\<lambda>i. net_node_strings net1 ! i \<noteq> net_node_strings net2 ! i) [0..<net_n_l net1]
      then Some Leaf_Name_Mismatch
      else
        let rlen = (2 ^ net_n_l net1 + 31) div 32;
            res = replicate rlen (0 :: 32 word)
        in case subset_sizes cc [1..<net_n_l net1] (res, res, 0) net1 net2 of
             None \<Rightarrow> None
           | Some (res1, res2, index) \<Rightarrow>
               Some (Distance
                       (real_of_int (sum_list (map (\<lambda>i. pop (res1 ! i XOR res2 ! i)) [0..<rlen])) / 2)))"

text \<open>
  The two \<open>main\<close> functions. \<open>srfd_exit\<close> tells what was printed and how the program
  ended: \<open>Exit_10\<close> after \<open>exit(10)\<close>, the others after \<open>return\<close>. The parameter
  \<open>preprocess\<close> is \<open>Preprocess_Network\<close> on a file name (reading the file,
  validation with \<open>exit(10)\<close>, component building): \<open>None\<close> when it does not return,
  \<open>Some None\<close> when it exits with code \<open>10\<close>, else the network.
\<close>

datatype srfd_exit =
    Exit_10
  | Printed_Usage
  | Printed_Same_Files real
  | Printed_Distance real

definition main_print ::
  "(string \<Rightarrow> network option option) \<Rightarrow> (network \<Rightarrow> nat \<Rightarrow> int list \<Rightarrow> int list \<Rightarrow> int option) \<Rightarrow>
   int \<Rightarrow> string list \<Rightarrow> srfd_exit option" where
  "main_print preprocess cc argc argv =
     (if argc \<noteq> 3 then Some Exit_10
      else if argv ! 1 = argv ! 2 then Some (Printed_Same_Files 0)
      else (case preprocess (argv ! 1) of
              None \<Rightarrow> None
            | Some None \<Rightarrow> Some Exit_10
            | Some (Some net1) \<Rightarrow>
                (case preprocess (argv ! 2) of
                   None \<Rightarrow> None
                 | Some None \<Rightarrow> Some Exit_10
                 | Some (Some net2) \<Rightarrow>
                     (case Find_Cluster_Distance cc net1 net2 of
                        None \<Rightarrow> None
                      | Some (Distance dist') \<Rightarrow> Some (Printed_Distance dist')
                      | Some mismatch \<Rightarrow> Some Exit_10))))"

text \<open>
  \<open>main\<close> of SoftRFDist_parallel.c returns after the usage message; its
  \<open>Find_Cluster_Distance\<close>, which reads both files and searches in parallel, is the
  parameter \<open>find_cluster_distance\<close>.
\<close>

definition main_parallel ::
  "(string \<Rightarrow> string \<Rightarrow> srfd_exit option) \<Rightarrow> int \<Rightarrow> string list \<Rightarrow> srfd_exit option" where
  "main_parallel find_cluster_distance argc argv =
     (if argc \<noteq> 3 then Some Printed_Usage
      else if argv ! 1 = argv ! 2 then Some (Printed_Same_Files 0)
      else find_cluster_distance (argv ! 1) (argv ! 2))"

section \<open>Notions used to state the properties\<close>

text \<open>
  The nodes the validation counts: a root has indegree \<open>0\<close> and outdegree above
  \<open>1\<close>, a mixed node has indegree and outdegree above \<open>1\<close>.
\<close>

definition root_nodes :: "int list \<Rightarrow> int list \<Rightarrow> nat \<Rightarrow> nat \<Rightarrow> nat list" where
  "root_nodes start end no_edges no_nodes =
     filter (\<lambda>i. in_degree end no_edges i = 0 \<and> out_degree start no_edges i > 1) [0..<no_nodes]"

definition mixed_nodes :: "int list \<Rightarrow> int list \<Rightarrow> nat \<Rightarrow> nat \<Rightarrow> nat list" where
  "mixed_nodes start end no_edges no_nodes =
     filter (\<lambda>i. in_degree end no_edges i > 1 \<and> out_degree start no_edges i > 1) [0..<no_nodes]"

text \<open>The number \<open>n_l\<close> of leaves that \<open>main\<close> counts in a network file.\<close>

definition network_n_l :: "(string \<times> string) list \<Rightarrow> nat" where
  "network_n_l network_file =
     (let net = read_network network_file;
          no_nodes = length (fst net);
          typed = Node_Type_Inform1 (replicate no_nodes ROOT) no_nodes (fst (snd net)) (snd (snd net))
                    (length (fst (snd net))) None
      in length (network_leaves (fst (snd typed)) no_nodes))"

text \<open>
  The input that \<open>main\<close> hands to the search, followed through its three parts:
  each definition repeats the assignments of its part up to the call of the next one.
  The value is \<open>None\<close> when \<open>Sort_Rets_By_Level\<close> does not return, so that
  the search is never called.
\<close>

definition search_input_of_main_search ::
  "string list \<Rightarrow> node_kind list \<Rightarrow> int list \<Rightarrow> int list \<Rightarrow> int option \<Rightarrow> nat \<Rightarrow> nat \<Rightarrow> nat \<Rightarrow>
   int list \<Rightarrow> int list \<Rightarrow> search_input option" where
  "search_input_of_main_search node_strings node_type start end root' n_l n_r no1 input_leaves in_cluster =
     (let no_nodes = length node_strings;
          no_edges = length start;
          orig_rnodes = map int (filter (\<lambda>i. node_type ! i = RET) [0..<no_nodes]);
          ca_pa = Child_Parent_Inform no_nodes start end no_edges
      in case Sort_Rets_By_Level orig_rnodes orig_rnodes n_r (fst ca_pa) node_type of
           None \<Rightarrow> None
         | Some (orig_rnodes', r_nodes) \<Rightarrow>
             Some \<lparr>si_node_strings = node_strings, si_node_type = node_type,
                   si_start = start, si_end = end, si_root = root',
                   si_n_l = n_l, si_n_r = n_r, si_r_nodes = r_nodes,
                   si_child_array = fst ca_pa, si_parent_array = snd ca_pa,
                   si_no1 = no1, si_input_leaves = input_leaves,
                   si_in_cluster = in_cluster\<rparr>)"

definition search_input_of_main_leaves ::
  "string list \<Rightarrow> string list \<Rightarrow> node_kind list \<Rightarrow> int list \<Rightarrow> int list \<Rightarrow> int option \<Rightarrow>
   search_input option" where
  "search_input_of_main_leaves leave_names node_strings node_type start end root' =
     (let no1 = length leave_names;
          no_nodes = length node_strings;
          no_edges = length start;
          n_l = length (network_leaves node_type no_nodes);
          n_r = length (filter (\<lambda>i. node_type ! i = RET) [0..<no_nodes]);
          net_leaves = map (\<lambda>i. node_strings ! i) (network_leaves node_type no_nodes);
          moved = Move_Leaves_Front node_strings no_nodes start end net_leaves n_l;
          node_strings' = fst (snd moved);
          start' = fst (snd (snd moved));
          end' = snd (snd (snd moved));
          typed = Node_Type_Inform1 node_type no_nodes start' end' no_edges root';
          in_cluster = map (\<lambda>i. Is_In_Str (node_strings' ! i) leave_names no1) [0..<n_l];
          input_leaves = map int (filter (\<lambda>i. in_cluster ! i = 1) [0..<n_l])
      in search_input_of_main_search node_strings' (fst (snd typed)) start' end' (snd (snd typed))
           n_l n_r no1 input_leaves in_cluster)"

definition search_input_of_main :: "string list \<Rightarrow> (string \<times> string) list \<Rightarrow> search_input option" where
  "search_input_of_main leaf_file network_file =
     (let leave_names = fold read_leaf leaf_file [];
          net = read_network network_file;
          node_strings = fst net;
          start = fst (snd net);
          end = snd (snd net);
          no_nodes = length node_strings;
          typed = Node_Type_Inform1 (replicate no_nodes ROOT) no_nodes start end (length start) None
      in search_input_of_main_leaves leave_names node_strings (fst (snd typed)) start end
           (snd (snd typed)))"

text \<open>Two searches used as sample values of the parameter of \<open>main\<close>.\<close>

definition search_returns :: "int \<Rightarrow> search_input \<Rightarrow> int option" where
  "search_returns res si = Some res"

definition search_diverges :: "search_input \<Rightarrow> int option" where
  "search_diverges si = None"

text \<open>
  Sample networks: the reference network of the specification, a single edge, a graph
  with two roots, and a graph whose two reticulations lie below each other.
\<close>

definition reference_network :: "(string \<times> string) list" where
  "reference_network =
     [(''1'', ''2''), (''1'', ''3''), (''3'', ''4''), (''4'', ''5''), (''2'', ''6''), (''3'', ''6''),
      (''6'', ''leaf1''), (''5'', ''leaf2''), (''5'', ''leaf3''), (''4'', ''leaf4'')]"

definition pendant_network :: "(string \<times> string) list" where
  "pendant_network = [(''a'', ''b'')]"

definition two_root_network :: "(string \<times> string) list" where
  "two_root_network = [(''a'', ''b''), (''a'', ''c''), (''d'', ''b''), (''d'', ''c'')]"

definition cyclic_network :: "(string \<times> string) list" where
  "cyclic_network =
     [(''R'', ''r1''), (''R'', ''r2''), (''r1'', ''t1''), (''t1'', ''r2''), (''t1'', ''l1''),
      (''r2'', ''t2''), (''t2'', ''r1''), (''t2'', ''l2''), (''t1'', ''l3'')]"

text \<open>
  The arrays of the last network when \<open>main\<close> reaches the level ordering, after the
  leaves have been moved to the front: the reticulations are the nodes \<open>6\<close> and
  \<open>7\<close>.
\<close>

definition cyclic_start :: "int list" where
  "cyclic_start = [4, 4, 6, 3, 3, 7, 5, 5, 3]"

definition cyclic_end :: "int list" where
  "cyclic_end = [6, 7, 3, 7, 0, 5, 6, 1, 2]"

definition cyclic_types :: "node_kind list" where
  "cyclic_types = [LEAVE, LEAVE, LEAVE, TREE, ROOT, TREE, RET, RET]"

definition cyclic_children :: "int list list" where
  "cyclic_children = [[], [], [], [7, 0, 2], [6, 7], [6, 1], [3], [5]]"

text \<open>
  The states \<open>(orig_rnodes, r_nodes, j)\<close> in which the third loop of
  \<open>Sort_Rets_By_Level\<close> tests its condition when it is entered in the state \<open>s\<close>:
  \<open>s\<close> itself, and the state one more round leaves. A round emits when its
  \<open>level_ret\<close> is not empty. The unresolved positions of \<open>orig_rnodes\<close> are
  those that do not hold \<open>-2\<close>.
\<close>

inductive level_rounds ::
  "nat \<Rightarrow> node_kind list \<Rightarrow> int list list \<Rightarrow> int list \<times> int list \<times> nat \<Rightarrow>
   int list \<times> int list \<times> nat \<Rightarrow> bool"
  for n_r node_type child_array s where
  first_round: "level_rounds n_r node_type child_array s s"
| next_round:
    "level_rounds n_r node_type child_array s s' \<Longrightarrow> Is_Empty n_r (fst s') = 0 \<Longrightarrow>
     collect_level n_r (fst s') node_type child_array [0..<n_r] = Some level_ret \<Longrightarrow>
     level_rounds n_r node_type child_array s (fold emit_level (qsort_level level_ret) s')"

code_pred (modes: i \<Rightarrow> i \<Rightarrow> i \<Rightarrow> i \<Rightarrow> o \<Rightarrow> bool) level_rounds .

definition round_emits ::
  "nat \<Rightarrow> node_kind list \<Rightarrow> int list list \<Rightarrow> int list \<times> int list \<times> nat \<Rightarrow> bool" where
  "round_emits n_r node_type child_array s =
     (case collect_level n_r (fst s) node_type child_array [0..<n_r] of
        Some (t # ts) \<Rightarrow> True
      | _ \<Rightarrow> False)"

definition unresolved :: "nat \<Rightarrow> int list \<Rightarrow> nat set" where
  "unresolved n_r orig_rnodes = {i. i < n_r \<and> orig_rnodes ! i \<noteq> - 2}"

text \<open>
  An acyclic input of the level ordering: \<open>orig_rnodes\<close> holds \<open>n_r\<close> different
  nodes, among them every node classified \<open>RET\<close>, every entry of \<open>child_array\<close>
  is a node, and \<open>rank\<close> falls along every edge.
\<close>

definition acyclic_input ::
  "(nat \<Rightarrow> nat) \<Rightarrow> int list \<Rightarrow> nat \<Rightarrow> int list list \<Rightarrow> node_kind list \<Rightarrow> bool" where
  "acyclic_input rank orig_rnodes n_r child_array node_type \<longleftrightarrow>
     length orig_rnodes = n_r \<and> distinct orig_rnodes \<and>
     list_all (\<lambda>r. 0 \<le> r \<and> nat r < length child_array) orig_rnodes \<and>
     list_all (\<lambda>x. node_type ! x = RET \<longrightarrow> int x \<in> set orig_rnodes) [0..<length child_array] \<and>
     list_all (\<lambda>x. list_all (\<lambda>c. 0 \<le> c \<and> nat c < length child_array \<and> rank (nat c) < rank x)
                       (child_array ! x))
       [0..<length child_array]"

text \<open>
  Two facts about the states of the ordering: each position of \<open>orig_rnodes\<close> holds
  its first value or \<open>-2\<close>, and, once the second rule has run, every unresolved
  reticulation has a reticulation below it.
\<close>

definition partly_resolved :: "int list \<Rightarrow> nat \<Rightarrow> int list \<times> int list \<times> nat \<Rightarrow> bool" where
  "partly_resolved orig_rnodes n_r s \<longleftrightarrow>
     length (fst s) = n_r \<and> (\<forall>i<n_r. fst s ! i = - 2 \<or> fst s ! i = orig_rnodes ! i)"

definition tree_rets_resolved ::
  "int list \<Rightarrow> nat \<Rightarrow> node_kind list \<Rightarrow> int list list \<Rightarrow> int list \<times> int list \<times> nat \<Rightarrow> bool" where
  "tree_rets_resolved orig_rnodes n_r node_type child_array s \<longleftrightarrow>
     (\<forall>i<n_r. fst s ! i \<noteq> - 2 \<longrightarrow> Is_Tree_Component (orig_rnodes ! i) node_type child_array \<noteq> Some 0)"

text \<open>
  A network with two reticulations in two layers: node \<open>6\<close> has the leaf \<open>1\<close>
  below it, node \<open>7\<close> the tree node \<open>5\<close> with the children \<open>6\<close> and
  \<open>0\<close>.
\<close>

definition layered_types :: "node_kind list" where
  "layered_types = [LEAVE, LEAVE, ROOT, TREE, TREE, TREE, RET, RET]"

definition layered_children :: "int list list" where
  "layered_children = [[], [], [3, 4], [7], [7, 6], [6, 0], [1], [5]]"

text \<open>A rank of the nodes of that network.\<close>

definition layered_rank :: "nat \<Rightarrow> nat" where
  "layered_rank x = [0, 0, 5, 4, 4, 2, 1, 3] ! x"

text \<open>
  The labels of a component tree, and the shape \<open>Build_Comp_Revised\<close> gives it: only
  nodes classified \<open>TREE\<close> or \<open>ROOT\<close> are expanded, so a node classified \<open>LEAVE\<close>
  or \<open>RET\<close> has no children.
\<close>

fun tree_labels :: "arb_tnode \<Rightarrow> int list" where
  "tree_labels (Node l f cs) = l # concat (map tree_labels cs)"

fun component_shape :: "node_kind list \<Rightarrow> arb_tnode \<Rightarrow> bool" where
  "component_shape node_type (Node l f cs) =
     ((if node_type ! nat l = LEAVE \<or> node_type ! nat l = RET then cs = [] else True) \<and>
      list_all (component_shape node_type) cs)"

text \<open>The stability condition in the words of the specification.\<close>

definition stable_witness :: "node_kind list \<Rightarrow> int list \<Rightarrow> int list \<Rightarrow> int \<Rightarrow> bool" where
  "stable_witness node_type inner_flag lf_below l =
     (node_type ! nat l = LEAVE \<or>
      (node_type ! nat l = RET \<and> inner_flag ! nat l = INNER \<and> lf_below ! nat l \<ge> 0))"

text \<open>
  The cross reticulations whose current leaf is an input leaf, and the three ways of the
  unstable branch.
\<close>

definition cross_ret_in :: "node_kind list \<Rightarrow> int list \<Rightarrow> int list \<Rightarrow> int list \<Rightarrow> nat \<Rightarrow> int \<Rightarrow> bool" where
  "cross_ret_in node_type inner_flag lf_below input_leaves no1 l =
     (node_type ! nat l = RET \<and> inner_flag ! nat l = CROSS \<and> lf_below ! nat l \<noteq> - 2 \<and>
      Is_In (lf_below ! nat l) input_leaves no1 = 1)"

fun splitter_branch :: "cc_branch \<Rightarrow> bool" where
  "splitter_branch (Report_Cluster v) = True"
| "splitter_branch (Split_Network a b c d) = True"
| "splitter_branch Skip_Unstable = True"
| "splitter_branch b = False"

text \<open>
  The root component of the reference network, with the node classification and the
  children lists after the leaves have been moved to the front.
\<close>

definition reference_types :: "node_kind list" where
  "reference_types = [LEAVE, LEAVE, LEAVE, LEAVE, TREE, RET, ROOT, TREE, TREE, TREE]"

definition reference_children :: "int list list" where
  "reference_children = [[], [], [], [], [1, 2], [0], [7, 8], [5], [9, 5], [4, 3]]"

definition reference_root_tree :: arb_tnode where
  "reference_root_tree =
     Node 6 0 [Node 7 0 [Node 5 0 []],
               Node 8 0 [Node 9 0 [Node 4 0 [Node 1 0 [], Node 2 0 []], Node 3 0 []], Node 5 0 []]]"

definition reference_root_component :: components where
  "reference_root_component =
     \<lparr>ret_node = 6, inner = CROSS, comp_size = 10, no_tree_node = 8,
      tree_com = Some reference_root_tree\<rparr>"

text \<open>A component whose frontier is two reticulations.\<close>

definition sample_types :: "node_kind list" where
  "sample_types = [LEAVE, LEAVE, TREE, RET, RET, ROOT]"

definition sample_tree :: arb_tnode where
  "sample_tree = Node 2 0 [Node 3 0 [], Node 4 0 []]"

definition sample_component :: components where
  "sample_component =
     \<lparr>ret_node = 5, inner = CROSS, comp_size = 3, no_tree_node = 1, tree_com = Some sample_tree\<rparr>"

text \<open>The outcome of the normalization at position \<open>x\<close>, in the words of the specification.\<close>

definition normalized :: "int list \<Rightarrow> int list \<Rightarrow> int list \<Rightarrow> int list \<Rightarrow> nat \<Rightarrow> bool" where
  "normalized inner_flag super_deg inner_flag' super_deg' x =
     (if inner_flag ! x = REVISED
      then (if super_deg ! x > 2
            then super_deg' ! x = super_deg ! x - 1 \<and> inner_flag' ! x = CROSS
            else super_deg' ! x = 1 \<and> inner_flag' ! x = INNER)
      else super_deg' ! x = super_deg ! x \<and> inner_flag' ! x = inner_flag ! x)"

text \<open>
  Exchanging the two result arrays, and sample values for the parameters of the distance
  programs: a file that cannot be read, a search that does not return, and two networks
  over the leaves \<open>a\<close>, \<open>b\<close>, \<open>c\<close> with a search that accepts one pair of leaves.
\<close>

definition swap_res :: "32 word list \<times> 32 word list \<times> nat \<Rightarrow> 32 word list \<times> 32 word list \<times> nat" where
  "swap_res s = (case s of (res1, res2, no_res) \<Rightarrow> (res2, res1, no_res))"

definition missing_file :: "string \<Rightarrow> network option option" where
  "missing_file arg = None"
definition no_cc :: "network \<Rightarrow> nat \<Rightarrow> int list \<Rightarrow> int list \<Rightarrow> int option" where
  "no_cc net r input_leaves in_cluster = None"
definition no_distance :: "string \<Rightarrow> string \<Rightarrow> srfd_exit option" where
  "no_distance arg1 arg2 = None"

definition sample_net :: "int \<Rightarrow> network" where
  "sample_net r = \<lparr>net_root = r, net_n_r = 0, net_n_l = 3, net_no_nodes = 5,
     net_node_strings = [''a'', ''b'', ''c'', ''r'', ''t''], net_child_array = [],
     net_lf_below = [], net_inner_flag = [], net_super_deg = [], net_node_type = [],
     net_r_nodes = [], net_all_cps = []\<rparr>"
definition sample_cc :: "network \<Rightarrow> nat \<Rightarrow> int list \<Rightarrow> int list \<Rightarrow> int option" where
  "sample_cc net r input_leaves in_cluster = Some (if input_leaves = [net_root net, net_root net + 1] then 50 else 0)"

text \<open>
  The \<open>k\<close>-subsets of the leaves \<open>0 .. n - 1\<close> as increasing index arrays, the
  membership bitmap of such an array read as a number (leaf \<open>i\<close> is bit \<open>i\<close>), and
  the position of the array in the enumeration: the sum of the binomial coefficients
  \<open>a[i]\<close> over \<open>i + 1\<close>.
\<close>

definition k_subsets :: "nat \<Rightarrow> nat \<Rightarrow> int list set" where
  "k_subsets n k = {a. length a = k \<and> sorted_wrt (<) a \<and> set a \<subseteq> {0..<int n}}"

definition bitmap_value :: "int list \<Rightarrow> nat" where
  "bitmap_value a = sum_list (map (\<lambda>x. 2 ^ nat x) a)"

fun colex_rank_from :: "nat \<Rightarrow> int list \<Rightarrow> nat" where
  "colex_rank_from i [] = 0"
| "colex_rank_from i (x # xs) = (nat x choose i) + colex_rank_from (Suc i) xs"

definition colex_rank :: "int list \<Rightarrow> nat" where
  "colex_rank a = colex_rank_from 1 a"

text \<open>The lexicographic order of index arrays.\<close>

fun lex_before :: "int list \<Rightarrow> int list \<Rightarrow> bool" where
  "lex_before [] [] = False"
| "lex_before [] (y # ys) = True"
| "lex_before (x # xs) [] = False"
| "lex_before (x # xs) (y # ys) = (x < y \<or> (x = y \<and> lex_before xs ys))"

section \<open>Properties\<close>

subsection \<open>Validation and exit codes of the cluster containment program\<close>

lemma fold_classify_counts:
  "fold (classify_node start end no_edges) xs (nt, c, cn, r) = (nt', c', cn', r') \<Longrightarrow>
   c' = c + int (length (filter (\<lambda>i. in_degree end no_edges i = 0 \<and> out_degree start no_edges i > 1) xs)) \<and>
   cn' = cn + int (length (filter (\<lambda>i. in_degree end no_edges i > 1 \<and> out_degree start no_edges i > 1) xs))"
proof (induction xs arbitrary: nt c cn r)
  case Nil then show ?case by simp
next
  case (Cons x xs)
  obtain nt1 c1 cn1 r1 where s: "classify_node start end no_edges x (nt, c, cn, r) = (nt1, c1, cn1, r1)"
    by (metis prod_cases4)
  have c1: "c1 = (if in_degree end no_edges x = 0 \<and> out_degree start no_edges x > 1 then 1 + c else c)"
    and cn1: "cn1 = (if in_degree end no_edges x > 1 \<and> out_degree start no_edges x > 1 then cn + 1 else cn)"
    using s by (auto simp: classify_node_def Let_def)
  from Cons.prems s have "fold (classify_node start end no_edges) xs (nt1, c1, cn1, r1) = (nt', c', cn', r')"
    by simp
  from Cons.IH[OF this] show ?case using c1 cn1 by auto
qed

lemma Node_Type_Inform1_rejects:
  "fst (Node_Type_Inform1 node_type no_nodes start end no_edges root') < 0 \<longleftrightarrow>
   1 < length (root_nodes start end no_edges no_nodes) \<or> mixed_nodes start end no_edges no_nodes \<noteq> []"
proof -
  obtain nt' c' cn' r' where f: "fold (classify_node start end no_edges) [0..<no_nodes] (node_type, 0, 0, root') = (nt', c', cn', r')"
    by (metis prod_cases4)
  from fold_classify_counts[OF f] show ?thesis
    by (auto simp: Node_Type_Inform1_def f root_nodes_def mixed_nodes_def)
qed

lemma main_search_exit:
  "main_search search ns nt st en root' n_l n_r no1 il ic = Some (r, c) \<Longrightarrow>
   c = 0 \<and> (r = Not_A_Cluster \<or> r = Cluster_Reported)"
  by (auto simp: main_search_def Let_def split: option.splits if_splits)

lemma main_search_not_50:
  "main_search search ns nt st en root' n_l n_r no1 il ic = Some (r, c) \<Longrightarrow>
   \<forall>si. search si \<noteq> Some 50 \<Longrightarrow> r = Not_A_Cluster"
  by (auto simp: main_search_def Let_def split: option.splits if_splits)

lemma main_leaves_exit:
  "main_leaves search lnames ns nt st en root' = Some (r, c) \<Longrightarrow>
   (c = 10 \<and> r = Unknown_Leaf \<and> main_leaves search' lnames ns nt st en root' = Some (r, c)) \<or>
   (c = 0 \<and> r = Trivial_Cluster \<and> main_leaves search' lnames ns nt st en root' = Some (r, c)) \<or>
   (c = 0 \<and> (r = Not_A_Cluster \<or> r = Cluster_Reported))"
  unfolding main_leaves_def Let_def
  by (auto split: if_splits dest: main_search_exit)

lemma main_leaves_not_50:
  "main_leaves search lnames ns nt st en root' = Some (r, c) \<Longrightarrow> \<forall>si. search si \<noteq> Some 50 \<Longrightarrow> r \<noteq> Cluster_Reported"
  unfolding main_leaves_def Let_def
  by (auto split: if_splits dest: main_search_not_50)

lemma main_search_reports:
  "main_search search node_strings node_type start end root' n_l n_r no1 input_leaves in_cluster =
     (case search_input_of_main_search node_strings node_type start end root' n_l n_r no1
             input_leaves in_cluster of
        None \<Rightarrow> None
      | Some si \<Rightarrow>
          (case search si of
             None \<Rightarrow> None
           | Some res \<Rightarrow> Some (if res \<noteq> 50 then Not_A_Cluster else Cluster_Reported, 0)))"
  by (simp add: main_search_def search_input_of_main_search_def Let_def
           split: option.splits prod.splits)

lemma main_leaves_reports:
  assumes "main_leaves search leave_names node_strings node_type start end root' \<noteq> Some (Unknown_Leaf, 10)"
    and "main_leaves search leave_names node_strings node_type start end root' \<noteq> Some (Trivial_Cluster, 0)"
  shows "main_leaves search leave_names node_strings node_type start end root' =
     (case search_input_of_main_leaves leave_names node_strings node_type start end root' of
        None \<Rightarrow> None
      | Some si \<Rightarrow>
          (case search si of
             None \<Rightarrow> None
           | Some res \<Rightarrow> Some (if res \<noteq> 50 then Not_A_Cluster else Cluster_Reported, 0)))"
  using assms
  unfolding main_leaves_def search_input_of_main_leaves_def Let_def main_search_reports
  by (simp split: if_splits)

lemma main_reports:
  assumes "argc = 3"
    and "main search argc leaf_file network_file \<noteq> Some (Bad_Topology, 10)"
    and "main search argc leaf_file network_file \<noteq> Some (Unknown_Leaf, 10)"
    and "main search argc leaf_file network_file \<noteq> Some (Trivial_Cluster, 0)"
  shows "main search argc leaf_file network_file =
     (case search_input_of_main leaf_file network_file of
        None \<Rightarrow> None
      | Some si \<Rightarrow>
          (case search si of
             None \<Rightarrow> None
           | Some res \<Rightarrow> Some (if res \<noteq> 50 then Not_A_Cluster else Cluster_Reported, 0)))"
proof -
  define net where "net = read_network network_file"
  define typed where "typed = Node_Type_Inform1 (replicate (length (fst net)) ROOT) (length (fst net))
      (fst (snd net)) (snd (snd net)) (length (fst (snd net))) None"
  define leave_names where "leave_names = fold read_leaf leaf_file []"
  have ok: "\<not> fst typed < 0"
    using assms(1,2) by (auto simp: main_def Let_def net_def typed_def split: if_splits)
  have m: "main search argc leaf_file network_file =
      main_leaves search leave_names (fst net) (fst (snd typed)) (fst (snd net)) (snd (snd net)) (snd (snd typed))"
    using ok assms(1) by (simp add: main_def Let_def net_def typed_def leave_names_def)
  have i: "search_input_of_main leaf_file network_file =
      search_input_of_main_leaves leave_names (fst net) (fst (snd typed)) (fst (snd net)) (snd (snd net)) (snd (snd typed))"
    by (simp add: search_input_of_main_def Let_def net_def typed_def leave_names_def)
  from assms(3,4) show ?thesis
    unfolding m i by (rule main_leaves_reports)
qed

text \<open>
  Claim C9. Every run of \<open>main\<close> that returns ends with exit code \<open>10\<close> or \<open>0\<close>.
  Exit code \<open>10\<close> comes only with the usage, topology or unknown-leaf report, and it
  is decided before the search starts: the run ends the same way whatever the search
  would do. The negative report \<open>not a cluster\<close> always comes with exit code \<open>0\<close>,
  and it is what the program prints whenever the search it has started returns a value
  other than \<open>50\<close> (among them the \<open>10\<close> of \<open>Cluster_Containment\<close>): when the
  level ordering has returned and the search returns such a value on the input it is
  given, the last part of \<open>main\<close> returns the negative report with exit code
  \<open>0\<close>, and so does \<open>main\<close> on every run with two arguments that is not ended
  by the topology, the unknown-leaf or the trivial report.
\<close>

theorem main_exit_codes:
  "(main search argc leaf_file network_file = Some (r, c) \<longrightarrow>
      (c = 10 \<longrightarrow> (r = Usage \<or> r = Bad_Topology \<or> r = Unknown_Leaf) \<and>
                 main search' argc leaf_file network_file = Some (r, 10)) \<and>
      (c \<noteq> 10 \<longrightarrow> c = 0) \<and>
      (r = Not_A_Cluster \<longrightarrow> c = 0) \<and>
      ((\<forall>si. search si \<noteq> Some 50) \<longrightarrow> r \<noteq> Cluster_Reported)) \<and>
   (search_input_of_main_search node_strings node_type start end root' n_l n_r no1
      input_leaves in_cluster = Some si \<and> search si = Some res \<and> res \<noteq> 50 \<longrightarrow>
    main_search search node_strings node_type start end root' n_l n_r no1 input_leaves in_cluster =
      Some (Not_A_Cluster, 0)) \<and>
   (argc = 3 \<and>
    main search argc leaf_file network_file \<noteq> Some (Bad_Topology, 10) \<and>
    main search argc leaf_file network_file \<noteq> Some (Unknown_Leaf, 10) \<and>
    main search argc leaf_file network_file \<noteq> Some (Trivial_Cluster, 0) \<and>
    search_input_of_main leaf_file network_file = Some si' \<and> search si' = Some res' \<and> res' \<noteq> 50 \<longrightarrow>
    main search argc leaf_file network_file = Some (Not_A_Cluster, 0))"
proof (intro conjI impI)
  assume a: "main search argc leaf_file network_file = Some (r, c)"
  have old: "(c = 10 \<longrightarrow> (r = Usage \<or> r = Bad_Topology \<or> r = Unknown_Leaf) \<and>
                 main search' argc leaf_file network_file = Some (r, 10)) \<and>
         (c \<noteq> 10 \<longrightarrow> c = 0) \<and>
         (r = Not_A_Cluster \<longrightarrow> c = 0) \<and>
         ((\<forall>si. search si \<noteq> Some 50) \<longrightarrow> r \<noteq> Cluster_Reported)"
  proof (cases "argc \<noteq> 3")
    case True
    with a show ?thesis by (auto simp: main_def)
  next
    case False
    show ?thesis
    proof (cases "main search argc leaf_file network_file = Some (Bad_Topology, 10)")
      case True
      with a False show ?thesis
        by (auto simp: main_def Let_def split: if_splits dest: main_leaves_exit)
    next
      case nb: False
      define net where "net = read_network network_file"
      define typed where "typed = Node_Type_Inform1 (replicate (length (fst net)) ROOT) (length (fst net))
          (fst (snd net)) (snd (snd net)) (length (fst (snd net))) None"
      have ok: "\<not> fst typed < 0"
        using nb False by (auto simp: main_def Let_def net_def typed_def split: if_splits)
      have m: "\<And>s. main s argc leaf_file network_file =
          main_leaves s (fold read_leaf leaf_file []) (fst net) (fst (snd typed)) (fst (snd net)) (snd (snd net)) (snd (snd typed))"
        using ok False by (simp add: main_def Let_def net_def typed_def)
      from a m have ml: "main_leaves search (fold read_leaf leaf_file []) (fst net) (fst (snd typed)) (fst (snd net)) (snd (snd net)) (snd (snd typed)) = Some (r, c)"
        by simp
      from main_leaves_exit[OF ml, of search'] main_leaves_not_50[OF ml] show ?thesis
        by (auto simp: m)
    qed
  qed
  from old show "c = 10 \<Longrightarrow> r = Usage \<or> r = Bad_Topology \<or> r = Unknown_Leaf" by blast
  from old show "c = 10 \<Longrightarrow> main search' argc leaf_file network_file = Some (r, 10)" by blast
  from old show "c \<noteq> 10 \<Longrightarrow> c = 0" by blast
  from old show "r = Not_A_Cluster \<Longrightarrow> c = 0" by blast
  from old show "\<forall>si. search si \<noteq> Some 50 \<Longrightarrow> r \<noteq> Cluster_Reported" by blast
next
  assume "search_input_of_main_search node_strings node_type start end root' n_l n_r no1
      input_leaves in_cluster = Some si \<and> search si = Some res \<and> res \<noteq> 50"
  then show "main_search search node_strings node_type start end root' n_l n_r no1 input_leaves in_cluster =
      Some (Not_A_Cluster, 0)"
    by (simp add: main_search_reports)
next
  assume h: "argc = 3 \<and>
    main search argc leaf_file network_file \<noteq> Some (Bad_Topology, 10) \<and>
    main search argc leaf_file network_file \<noteq> Some (Unknown_Leaf, 10) \<and>
    main search argc leaf_file network_file \<noteq> Some (Trivial_Cluster, 0) \<and>
    search_input_of_main leaf_file network_file = Some si' \<and> search si' = Some res' \<and> res' \<noteq> 50"
  then have "argc = 3"
    and "main search argc leaf_file network_file \<noteq> Some (Bad_Topology, 10)"
    and "main search argc leaf_file network_file \<noteq> Some (Unknown_Leaf, 10)"
    and "main search argc leaf_file network_file \<noteq> Some (Trivial_Cluster, 0)"
    by blast+
  then have "main search argc leaf_file network_file =
     (case search_input_of_main leaf_file network_file of
        None \<Rightarrow> None
      | Some si \<Rightarrow>
          (case search si of
             None \<Rightarrow> None
           | Some res \<Rightarrow> Some (if res \<noteq> 50 then Not_A_Cluster else Cluster_Reported, 0)))"
    by (rule main_reports)
  with h show "main search argc leaf_file network_file = Some (Not_A_Cluster, 0)"
    by simp
qed

theorem main_exit_codes_witness:
  "main (search_returns 10) 3 [''leaf1'', ''leaf2''] reference_network = Some (Not_A_Cluster, 0) \<and>
   main (search_returns 10) 3 [''leaf1'', ''leafX''] reference_network = Some (Unknown_Leaf, 10) \<and>
   main search_diverges 3 [''leaf1'', ''leafX''] reference_network = Some (Unknown_Leaf, 10) \<and>
   main_search (search_returns 10)
     [''leaf1'', ''leaf2'', ''leaf3'', ''leaf4'', ''5'', ''6'', ''1'', ''2'', ''3'', ''4'']
     [LEAVE, LEAVE, LEAVE, LEAVE, TREE, RET, ROOT, TREE, TREE, TREE]
     [6, 6, 8, 9, 7, 8, 5, 4, 4, 9] [7, 8, 9, 4, 5, 5, 0, 1, 2, 3] (Some 6) 4 1 2 [0, 1]
     [1, 1, 0, 0] = Some (Not_A_Cluster, 0)"
proof -
  have b: "main (search_returns 10) 3 [''leaf1'', ''leafX''] reference_network = Some (Unknown_Leaf, 10)"
    by code_simp
  have p: "main (search_returns 10) 3 [''leaf1'', ''leaf2''] reference_network \<noteq> Some (Bad_Topology, 10)"
          "main (search_returns 10) 3 [''leaf1'', ''leaf2''] reference_network \<noteq> Some (Unknown_Leaf, 10)"
          "main (search_returns 10) 3 [''leaf1'', ''leaf2''] reference_network \<noteq> Some (Trivial_Cluster, 0)"
    by code_simp+
  have n: "search_input_of_main [''leaf1'', ''leaf2''] reference_network \<noteq> None"
    by code_simp
  then obtain si where si: "search_input_of_main [''leaf1'', ''leaf2''] reference_network = Some si"
    by blast
  have s: "search_returns 10 si = Some 10"
    by (simp add: search_returns_def)
  from main_exit_codes [where search = "search_returns 10" and argc = 3 and
         leaf_file = "[''leaf1'', ''leaf2'']" and network_file = reference_network and
         si' = si and res' = 10] p si s
  have a: "main (search_returns 10) 3 [''leaf1'', ''leaf2''] reference_network = Some (Not_A_Cluster, 0)"
    by simp
  from main_exit_codes [where search = "search_returns 10" and argc = 3 and
         leaf_file = "[''leaf1'', ''leafX'']" and network_file = reference_network and
         r = Unknown_Leaf and c = 10 and search' = search_diverges] b
  have c: "main search_diverges 3 [''leaf1'', ''leafX''] reference_network = Some (Unknown_Leaf, 10)"
    by simp
  have "search_input_of_main_search
     [''leaf1'', ''leaf2'', ''leaf3'', ''leaf4'', ''5'', ''6'', ''1'', ''2'', ''3'', ''4'']
     [LEAVE, LEAVE, LEAVE, LEAVE, TREE, RET, ROOT, TREE, TREE, TREE]
     [6, 6, 8, 9, 7, 8, 5, 4, 4, 9] [7, 8, 9, 4, 5, 5, 0, 1, 2, 3] (Some 6) 4 1 2 [0, 1]
     [1, 1, 0, 0] \<noteq> None"
    by code_simp
  then obtain sj where sj: "search_input_of_main_search
     [''leaf1'', ''leaf2'', ''leaf3'', ''leaf4'', ''5'', ''6'', ''1'', ''2'', ''3'', ''4'']
     [LEAVE, LEAVE, LEAVE, LEAVE, TREE, RET, ROOT, TREE, TREE, TREE]
     [6, 6, 8, 9, 7, 8, 5, 4, 4, 9] [7, 8, 9, 4, 5, 5, 0, 1, 2, 3] (Some 6) 4 1 2 [0, 1]
     [1, 1, 0, 0] = Some sj"
    by blast
  have t: "search_returns 10 sj = Some 10"
    by (simp add: search_returns_def)
  have d: "main_search (search_returns 10)
     [''leaf1'', ''leaf2'', ''leaf3'', ''leaf4'', ''5'', ''6'', ''1'', ''2'', ''3'', ''4'']
     [LEAVE, LEAVE, LEAVE, LEAVE, TREE, RET, ROOT, TREE, TREE, TREE]
     [6, 6, 8, 9, 7, 8, 5, 4, 4, 9] [7, 8, 9, 4, 5, 5, 0, 1, 2, 3] (Some 6) 4 1 2 [0, 1]
     [1, 1, 0, 0] = Some (Not_A_Cluster, 0)"
    by (rule main_exit_codes [THEN conjunct2, THEN conjunct1, rule_format])
       (intro conjI, rule sj, rule t, simp)
  from a b c d show ?thesis by simp
qed

text \<open>
  Claim C5, as amended. \<open>main\<close> ends with the topology report and exit code \<open>10\<close>
  exactly when it was given two arguments and the graph has more than one root (a node
  with indegree \<open>0\<close> and outdegree above \<open>1\<close>) or some node with indegree and
  outdegree both above \<open>1\<close>. A graph with no root at all is not rejected.
\<close>

theorem main_rejects_topology:
  "main search argc leaf_file network_file = Some (Bad_Topology, 10) \<longleftrightarrow>
   argc = 3 \<and>
   (case read_network network_file of
      (node_strings, start, end) \<Rightarrow>
        1 < length (root_nodes start end (length start) (length node_strings)) \<or>
        0 < length (mixed_nodes start end (length start) (length node_strings)))"
proof -
  obtain node_strings start "end" where n: "read_network network_file = (node_strings, start, end)"
    by (metis prod_cases3)
  have "main search argc leaf_file network_file = Some (Bad_Topology, 10) \<longleftrightarrow>
        argc = 3 \<and> fst (Node_Type_Inform1 (replicate (length node_strings) ROOT) (length node_strings)
                          start end (length start) None) < 0"
    unfolding main_def Let_def n
    by (auto split: if_splits dest: main_leaves_exit)
  then show ?thesis
    by (simp add: n Node_Type_Inform1_rejects)
qed

theorem main_rejects_topology_witness:
  "main search_diverges 3 [] two_root_network = Some (Bad_Topology, 10)"
  unfolding main_rejects_topology
  by (simp add: read_network_def two_root_network_def read_edge_def Check_Name_def
        root_nodes_def mixed_nodes_def in_degree_def out_degree_def)

text \<open>
  The claim as stated, with "does not have exactly one root'", fails on the graph of the
  single edge \<open>a \<rightarrow> b\<close>: it has no root, and \<open>main\<close> goes on to answer the query.
\<close>

theorem main_accepts_rootless_counterexample:
  "main search_diverges 3 [''b''] pendant_network = Some (Trivial_Cluster, 0) \<and>
   root_nodes [0] [1] 1 2 = [] \<and> read_network pendant_network = ([''a'', ''b''], [0], [1])"
  by code_simp

text \<open>
  Claim C6, as amended. When the network passes validation and every input leaf is a
  leaf of the network, an input of one leaf or of all \<open>n\<close> leaves is answered with
  the trivial report and exit code \<open>0\<close>; the answer is the same for every search, so
  neither the resolver nor the splitter runs.
\<close>

theorem trivial_inputs:
  assumes "argc = 3"
    and "main search argc leaf_file network_file \<noteq> Some (Bad_Topology, 10)"
    and "main search argc leaf_file network_file \<noteq> Some (Unknown_Leaf, 10)"
    and "length (fold read_leaf leaf_file []) = 1 \<or>
         length (fold read_leaf leaf_file []) = network_n_l network_file"
  shows "main search' argc leaf_file network_file = Some (Trivial_Cluster, 0)"
proof -
  define net where "net = read_network network_file"
  define typed where "typed = Node_Type_Inform1 (replicate (length (fst net)) ROOT) (length (fst net))
      (fst (snd net)) (snd (snd net)) (length (fst (snd net))) None"
  define leave_names where "leave_names = fold read_leaf leaf_file []"
  have ok: "\<not> fst typed < 0"
    using assms(1,2) by (auto simp: main_def Let_def net_def typed_def split: if_splits)
  have m: "\<And>s. main s argc leaf_file network_file =
      main_leaves s leave_names (fst net) (fst (snd typed)) (fst (snd net)) (snd (snd net)) (snd (snd typed))"
    using ok assms(1) by (simp add: main_def Let_def net_def typed_def leave_names_def)
  have n: "network_n_l network_file = length (network_leaves (fst (snd typed)) (length (fst net)))"
    by (simp add: network_n_l_def Let_def net_def typed_def)
  from assms(3) have "main_leaves search leave_names (fst net) (fst (snd typed)) (fst (snd net))
      (snd (snd net)) (snd (snd typed)) \<noteq> Some (Unknown_Leaf, 10)"
    by (simp add: m)
  moreover from assms(4) have "length leave_names = 1 \<or>
      length (network_leaves (fst (snd typed)) (length (fst net))) = length leave_names"
    by (auto simp: n leave_names_def)
  ultimately have "main_leaves search' leave_names (fst net) (fst (snd typed)) (fst (snd net))
      (snd (snd net)) (snd (snd typed)) = Some (Trivial_Cluster, 0)"
    unfolding main_leaves_def Let_def by (auto split: if_splits)
  then show ?thesis by (simp add: m)
qed

theorem trivial_inputs_witness:
  "main search_diverges 3 [''leaf2''] reference_network = Some (Trivial_Cluster, 0) \<and>
   main search_diverges 3 [''leaf4'', ''leaf1'', ''leaf3'', ''leaf2''] reference_network = Some (Trivial_Cluster, 0)"
proof -
  have a: "main (search_returns 50) 3 [''leaf2''] reference_network \<noteq> Some (Bad_Topology, 10)"
       "main (search_returns 50) 3 [''leaf2''] reference_network \<noteq> Some (Unknown_Leaf, 10)"
       "length (fold read_leaf [''leaf2''] []) = 1"
    by code_simp+
  have b: "main (search_returns 50) 3 [''leaf4'', ''leaf1'', ''leaf3'', ''leaf2''] reference_network \<noteq> Some (Bad_Topology, 10)"
       "main (search_returns 50) 3 [''leaf4'', ''leaf1'', ''leaf3'', ''leaf2''] reference_network \<noteq> Some (Unknown_Leaf, 10)"
       "length (fold read_leaf [''leaf4'', ''leaf1'', ''leaf3'', ''leaf2''] []) = network_n_l reference_network"
    by code_simp+
  show ?thesis
    using trivial_inputs[OF _ a(1,2), of search_diverges] trivial_inputs[OF _ b(1,2), of search_diverges] a(3) b(3)
    by simp
qed

text \<open>
  For the empty input the guard \<open>no1 == 1 || n_l == no1\<close> does not hold on the
  reference network (four leaves): the search is started and its result is reported.
\<close>

theorem empty_input_runs_search_counterexample:
  "main (search_returns 10) 3 [] reference_network = Some (Not_A_Cluster, 0) \<and>
   main (search_returns 50) 3 [] reference_network = Some (Cluster_Reported, 0) \<and>
   main search_diverges 3 [] reference_network = None"
  by code_simp

subsection \<open>Level ordering\<close>

lemma level_loop_returns:
  assumes h: "level_loop n_r node_type child_array s = Some y"
  shows "\<not> (Is_Empty n_r (fst s) = 0 \<and>
            collect_level n_r (fst s) node_type child_array [0..<n_r] = Some [])"
  by (rule level_loop.raw_induct
        [where P = "\<lambda>n_r nt ca s y. \<not> (Is_Empty n_r (fst s) = 0 \<and>
                      collect_level n_r (fst s) nt ca [0..<n_r] = Some [])", OF _ h])
     (auto simp: qsort_level_def split: if_splits)

lemma level_loop_stuck:
  "Is_Empty n_r (fst s) = 0 \<Longrightarrow>
   collect_level n_r (fst s) node_type child_array [0..<n_r] = Some [] \<Longrightarrow>
   level_loop n_r node_type child_array s = None"
  using level_loop_returns by (cases "level_loop n_r node_type child_array s") auto

lemma collect_level_indices:
  "collect_level n_r orig_rnodes node_type child_array is = Some level_ret \<Longrightarrow>
   t \<in> set level_ret \<Longrightarrow> tn_index t \<in> set is \<and> orig_rnodes ! tn_index t \<noteq> - 2"
proof (induction "is" arbitrary: level_ret)
  case Nil
  then show ?case by simp
next
  case (Cons i "is")
  show ?case
  proof (cases "orig_rnodes ! i = - 2")
    case True
    with Cons.prems Cons.IH show ?thesis by auto
  next
    case False
    from Cons.prems(1) False obtain acc where
      a: "Count_Ret_Child (orig_rnodes ! i) (0, 0, 0) n_r orig_rnodes node_type child_array = Some acc"
      by (auto split: option.splits)
    obtain cnt flg sz where acc: "acc = (cnt, flg, sz)"
      by (metis prod_cases3)
    from Cons.prems(1) False a acc obtain rest where
      r: "collect_level n_r orig_rnodes node_type child_array is = Some rest"
      by (auto split: option.splits)
    from Cons.prems(1) False a acc r have l: "level_ret =
        (if flg > 0 \<and> flg = cnt
         then \<lparr>tn_pnode = orig_rnodes ! i, tn_value = sz, tn_index = i\<rparr> # rest
         else rest)"
      by simp
    from Cons.IH[OF r] Cons.prems(2) l False show ?thesis
      by (auto split: if_splits)
  qed
qed

lemma fold_emit_level_fst:
  "fst (fold emit_level ts s) = fold (\<lambda>t orig. orig[tn_index t := - 2]) ts (fst s)"
  by (induction ts arbitrary: s) (auto simp: emit_level_def split: prod.splits)

lemma fold_update_length:
  "length (fold (\<lambda>t orig. orig[tn_index t := - 2]) ts orig) = length (orig :: int list)"
  by (induction ts arbitrary: orig) auto

lemma fold_update_nth:
  "i < length orig \<Longrightarrow>
   fold (\<lambda>t orig. orig[tn_index t := - 2]) ts orig ! i =
     (if i \<in> tn_index ` set ts then - 2 else (orig :: int list) ! i)"
  by (induction ts arbitrary: orig) (auto simp: nth_list_update)

lemma round_decreases:
  assumes len: "n_r \<le> length (fst s)"
    and col: "collect_level n_r (fst s) node_type child_array [0..<n_r] = Some (t # ts)"
  shows "unresolved n_r (fst (fold emit_level (qsort_level (t # ts)) s)) \<subset> unresolved n_r (fst s)"
proof -
  let ?new = "fst (fold emit_level (qsort_level (t # ts)) s)"
  have st: "set (qsort_level (t # ts)) = set (t # ts)"
    by (simp only: qsort_level_def set_sort)
  have nth: "\<And>i. i < n_r \<Longrightarrow>
      ?new ! i = (if i \<in> tn_index ` set (t # ts) then - 2 else fst s ! i)"
    using len by (simp add: fold_emit_level_fst fold_update_nth st)
  from collect_level_indices[OF col, of t]
  have ti: "tn_index t < n_r" "fst s ! tn_index t \<noteq> - 2"
    by simp_all
  have "unresolved n_r ?new \<subseteq> unresolved n_r (fst s)"
    using nth by (auto simp: unresolved_def split: if_splits)
  moreover have "tn_index t \<in> unresolved n_r (fst s)"
    using ti by (simp add: unresolved_def)
  moreover have "tn_index t \<notin> unresolved n_r ?new"
    using nth[OF ti(1)] by (simp add: unresolved_def)
  ultimately show ?thesis by blast
qed

lemma round_length:
  "length (fst (fold emit_level ts s)) = length (fst s)"
  by (simp add: fold_emit_level_fst fold_update_length)

lemma level_rounds_next:
  assumes "level_rounds n_r node_type child_array s1 s'"
    and "Is_Empty n_r (fst s) = 0"
    and "collect_level n_r (fst s) node_type child_array [0..<n_r] = Some level_ret"
    and "s1 = fold emit_level (qsort_level level_ret) s"
  shows "level_rounds n_r node_type child_array s s'"
  using assms
proof (induction rule: level_rounds.induct)
  case first_round
  from level_rounds.next_round[OF level_rounds.first_round first_round(1,2)] first_round(3)
  show ?case by simp
next
  case (next_round s' level_ret')
  from level_rounds.next_round[OF next_round.IH[OF next_round.prems] next_round.hyps(2,3)]
  show ?case .
qed

lemma level_loop_terminates:
  assumes "n_r \<le> length (fst s)"
    and "\<forall>s'. level_rounds n_r node_type child_array s s' \<and> Is_Empty n_r (fst s') = 0 \<longrightarrow>
              round_emits n_r node_type child_array s'"
  shows "\<exists>y. level_loop n_r node_type child_array s = Some y"
  using assms
proof (induction "card (unresolved n_r (fst s))" arbitrary: s rule: less_induct)
  case less
  show ?case
  proof (cases "Is_Empty n_r (fst s) = 0")
    case False
    then have "level_loop n_r node_type child_array s = Some s"
      by (subst level_loop.simps) simp
    then show ?thesis by blast
  next
    case True
    with less.prems(2) level_rounds.first_round[of n_r node_type child_array s]
    have "round_emits n_r node_type child_array s" by blast
    then obtain t ts where col: "collect_level n_r (fst s) node_type child_array [0..<n_r] = Some (t # ts)"
      by (auto simp: round_emits_def split: option.splits list.splits)
    let ?s1 = "fold emit_level (qsort_level (t # ts)) s"
    have fin: "finite (unresolved n_r (fst s))"
      by (simp add: unresolved_def)
    from round_decreases[OF less.prems(1) col] fin
    have "card (unresolved n_r (fst ?s1)) < card (unresolved n_r (fst s))"
      by (rule psubset_card_mono[rotated])
    moreover have "n_r \<le> length (fst ?s1)"
      using less.prems(1) by (simp add: round_length)
    moreover have "\<forall>s'. level_rounds n_r node_type child_array ?s1 s' \<and> Is_Empty n_r (fst s') = 0 \<longrightarrow>
              round_emits n_r node_type child_array s'"
      using less.prems(2) level_rounds_next[OF _ True col refl] by blast
    ultimately have "\<exists>y. level_loop n_r node_type child_array ?s1 = Some y"
      by (rule less.hyps)
    moreover have "level_loop n_r node_type child_array s = level_loop n_r node_type child_array ?s1"
      using True col by (subst level_loop.simps) simp
    ultimately show ?thesis by simp
  qed
qed

lemma level_rounds_same_result:
  "level_rounds n_r node_type child_array s s' \<Longrightarrow>
   level_loop n_r node_type child_array s' = level_loop n_r node_type child_array s"
proof (induction rule: level_rounds.induct)
  case first_round
  show ?case by simp
next
  case (next_round s' level_ret)
  have "level_loop n_r node_type child_array s' =
        level_loop n_r node_type child_array (fold emit_level (qsort_level level_ret) s')"
    using next_round.hyps(2,3) by (subst level_loop.simps) simp
  with next_round.IH show ?case by simp
qed

lemma level_loop_round_emits:
  assumes "level_loop n_r node_type child_array s = Some y"
    and "Is_Empty n_r (fst s) = 0"
  shows "round_emits n_r node_type child_array s"
proof -
  from assms have "collect_level n_r (fst s) node_type child_array [0..<n_r] \<noteq> None"
    by (subst (asm) level_loop.simps) (auto split: option.splits)
  moreover from level_loop_returns[OF assms(1)] assms(2)
  have "collect_level n_r (fst s) node_type child_array [0..<n_r] \<noteq> Some []"
    by simp
  ultimately show ?thesis
    by (auto simp: round_emits_def split: option.splits list.splits)
qed

lemma level_loop_result_empty:
  assumes h: "level_loop n_r node_type child_array s = Some y"
  shows "Is_Empty n_r (fst y) \<noteq> 0"
  by (rule level_loop.raw_induct
        [where P = "\<lambda>n_r nt ca s y. Is_Empty n_r (fst y) \<noteq> 0", OF _ h])
     (auto split: if_splits option.splits)

lemma move_leaf_ret_length:
  "length (fst (move_leaf_ret node_type child_array i s)) = length (fst s)"
  by (auto simp: move_leaf_ret_def split: prod.splits)

lemma fold_move_leaf_ret_length:
  "length (fst (fold (move_leaf_ret node_type child_array) is s)) = length (fst s)"
  by (induction "is" arbitrary: s) (simp_all add: move_leaf_ret_length)

lemma move_tree_rets_length:
  "move_tree_rets node_type child_array is s = Some s' \<Longrightarrow> length (fst s') = length (fst s)"
proof (induction "is" arbitrary: s)
  case Nil
  then show ?case by simp
next
  case (Cons i "is")
  obtain orig r j where s: "s = (orig, r, j)" by (metis prod_cases3)
  from Cons.prems show ?case
    unfolding s
    by (auto split: if_splits option.splits dest!: Cons.IH)
qed

text \<open>
  On an acyclic input both walks below a reticulation return, the unresolved
  reticulation of least rank has all its reticulation children emitted, and so every
  round emits: the level ordering returns.
\<close>

lemma acyclic_walks:
  fixes rank :: "nat \<Rightarrow> nat"
  assumes rk: "\<And>x c. x < length ca \<Longrightarrow> c \<in> set (ca ! x) \<Longrightarrow>
                 0 \<le> c \<and> nat c < length ca \<and> rank (nat c) < rank x"
    and p: "\<forall>c\<in>set p. 0 \<le> c \<and> nat c < length ca \<and> rank (nat c) < k"
  shows "\<exists>cnt' flg' sz'.
           Count_Ret_Child_loop n_r orig nt ca p (cnt, flg, sz) = Some (cnt', flg', sz') \<and>
           cnt \<le> cnt' \<and>
           Is_Tree_Component_loop nt ca p 0 = Some (if cnt < cnt' then 1 else 0) \<and>
           ((\<forall>c. 0 \<le> c \<and> nat c < length ca \<and> rank (nat c) < k \<and> nt ! nat c = RET \<longrightarrow>
                 Is_In c orig n_r = - 1) \<longrightarrow>
            flg' - flg = cnt' - cnt)"
  using p
proof (induction k arbitrary: p cnt flg sz rule: less_induct)
  case (less k)
  from less.prems show ?case
  proof (induction p arbitrary: cnt flg sz)
    case Nil
    have 1: "Count_Ret_Child_loop n_r orig nt ca [] (cnt, flg, sz) = Some (cnt, flg, sz)"
      by (subst Count_Ret_Child_loop.simps) simp
    have 2: "Is_Tree_Component_loop nt ca [] 0 = Some 0"
      by (subst Is_Tree_Component_loop.simps) simp
    show ?case unfolding 1 2 by simp
  next
    case (Cons c nxt)
    have c: "0 \<le> c" "nat c < length ca" "rank (nat c) < k"
      using Cons.prems by simp_all
    have nx: "\<forall>c\<in>set nxt. 0 \<le> c \<and> nat c < length ca \<and> rank (nat c) < k"
      using Cons.prems by simp
    consider (leaf) "nt ! nat c = LEAVE" | (ret) "nt ! nat c = RET"
      | (tree) "nt ! nat c \<noteq> LEAVE" "nt ! nat c \<noteq> RET"
      by blast
    then show ?case
    proof cases
      case leaf
      have 1: "Count_Ret_Child_loop n_r orig nt ca (c # nxt) (cnt, flg, sz) =
               Count_Ret_Child_loop n_r orig nt ca nxt (cnt, flg, sz + 1)"
        using leaf by (subst Count_Ret_Child_loop.simps) simp
      have 2: "Is_Tree_Component_loop nt ca (c # nxt) 0 = Is_Tree_Component_loop nt ca nxt 0"
        using leaf by (subst Is_Tree_Component_loop.simps) simp
      from Cons.IH[OF nx, of cnt flg "sz + 1"] show ?thesis
        unfolding 1 2 .
    next
      case ret
      let ?f = "if Is_In c orig n_r = - 1 then flg + 1 else flg"
      have 1: "Count_Ret_Child_loop n_r orig nt ca (c # nxt) (cnt, flg, sz) =
               Count_Ret_Child_loop n_r orig nt ca nxt (cnt + 1, ?f, sz)"
        using ret by (subst Count_Ret_Child_loop.simps) simp
      have 2: "Is_Tree_Component_loop nt ca (c # nxt) 0 = Some 1"
        using ret by (subst Is_Tree_Component_loop.simps) simp
      from Cons.IH[OF nx, of "cnt + 1" ?f sz] obtain cnt' flg' sz' where
        r: "Count_Ret_Child_loop n_r orig nt ca nxt (cnt + 1, ?f, sz) = Some (cnt', flg', sz')"
        and le: "cnt + 1 \<le> cnt'"
        and q: "(\<forall>c. 0 \<le> c \<and> nat c < length ca \<and> rank (nat c) < k \<and> nt ! nat c = RET \<longrightarrow>
                 Is_In c orig n_r = - 1) \<longrightarrow> flg' - ?f = cnt' - (cnt + 1)"
        by blast
      have "(\<forall>c. 0 \<le> c \<and> nat c < length ca \<and> rank (nat c) < k \<and> nt ! nat c = RET \<longrightarrow>
                 Is_In c orig n_r = - 1) \<longrightarrow> flg' - flg = cnt' - cnt"
      proof
        assume a: "\<forall>c. 0 \<le> c \<and> nat c < length ca \<and> rank (nat c) < k \<and> nt ! nat c = RET \<longrightarrow>
                 Is_In c orig n_r = - 1"
        with c ret have "Is_In c orig n_r = - 1" by blast
        with q a show "flg' - flg = cnt' - cnt" by simp
      qed
      with r le show ?thesis
        unfolding 1 2 by simp
    next
      case tree
      have ch: "\<forall>d\<in>set (ca ! nat c). 0 \<le> d \<and> nat d < length ca \<and> rank (nat d) < rank (nat c)"
        using rk[OF c(2)] by blast
      from less.IH[OF c(3) ch, of cnt flg "sz + 1"] obtain cnt1 flg1 sz1 where
        r1: "Count_Ret_Child_loop n_r orig nt ca (ca ! nat c) (cnt, flg, sz + 1) = Some (cnt1, flg1, sz1)"
        and le1: "cnt \<le> cnt1"
        and t1: "Is_Tree_Component_loop nt ca (ca ! nat c) 0 = Some (if cnt < cnt1 then 1 else 0)"
        and q1: "(\<forall>d. 0 \<le> d \<and> nat d < length ca \<and> rank (nat d) < rank (nat c) \<and> nt ! nat d = RET \<longrightarrow>
                 Is_In d orig n_r = - 1) \<longrightarrow> flg1 - flg = cnt1 - cnt"
        by blast
      from Cons.IH[OF nx, of cnt1 flg1 sz1] obtain cnt' flg' sz' where
        r2: "Count_Ret_Child_loop n_r orig nt ca nxt (cnt1, flg1, sz1) = Some (cnt', flg', sz')"
        and le2: "cnt1 \<le> cnt'"
        and t2: "Is_Tree_Component_loop nt ca nxt 0 = Some (if cnt1 < cnt' then 1 else 0)"
        and q2: "(\<forall>c. 0 \<le> c \<and> nat c < length ca \<and> rank (nat c) < k \<and> nt ! nat c = RET \<longrightarrow>
                 Is_In c orig n_r = - 1) \<longrightarrow> flg' - flg1 = cnt' - cnt1"
        by blast
      have 1: "Count_Ret_Child_loop n_r orig nt ca (c # nxt) (cnt, flg, sz) = Some (cnt', flg', sz')"
        using tree r1 r2 by (subst Count_Ret_Child_loop.simps) simp
      have 2: "Is_Tree_Component_loop nt ca (c # nxt) 0 = Some (if cnt < cnt' then 1 else 0)"
        using tree t1 t2 le1 le2 by (subst Is_Tree_Component_loop.simps) auto
      have "(\<forall>c. 0 \<le> c \<and> nat c < length ca \<and> rank (nat c) < k \<and> nt ! nat c = RET \<longrightarrow>
                 Is_In c orig n_r = - 1) \<longrightarrow> flg' - flg = cnt' - cnt"
      proof
        assume a: "\<forall>c. 0 \<le> c \<and> nat c < length ca \<and> rank (nat c) < k \<and> nt ! nat c = RET \<longrightarrow>
                 Is_In c orig n_r = - 1"
        with c(3) have "\<forall>d. 0 \<le> d \<and> nat d < length ca \<and> rank (nat d) < rank (nat c) \<and> nt ! nat d = RET \<longrightarrow>
                 Is_In d orig n_r = - 1"
          by (meson less_trans)
        with q1 have "flg1 - flg = cnt1 - cnt" by blast
        moreover from q2 a have "flg' - flg1 = cnt' - cnt1" by blast
        ultimately show "flg' - flg = cnt' - cnt" by simp
      qed
      with 1 2 le1 le2 show ?thesis by simp
    qed
  qed
qed

lemma acyclic_input_children:
  assumes "acyclic_input rank orig_rnodes n_r child_array node_type"
    and "x < length child_array" and "c \<in> set (child_array ! x)"
  shows "0 \<le> c \<and> nat c < length child_array \<and> rank (nat c) < rank x"
  using assms by (auto simp: acyclic_input_def list_all_iff)

lemma acyclic_input_entry:
  assumes "acyclic_input rank orig_rnodes n_r child_array node_type" and "i < n_r"
  shows "0 \<le> orig_rnodes ! i \<and> nat (orig_rnodes ! i) < length child_array"
  using assms by (auto simp: acyclic_input_def list_all_iff)

lemma acyclic_input_walk:
  assumes a: "acyclic_input rank orig_rnodes n_r child_array node_type" and i: "i < n_r"
  shows "\<exists>cnt flg sz.
           Count_Ret_Child (orig_rnodes ! i) (0, 0, 0) n_r orig node_type child_array = Some (cnt, flg, sz) \<and>
           0 \<le> cnt \<and>
           Is_Tree_Component (orig_rnodes ! i) node_type child_array = Some (if 0 < cnt then 1 else 0) \<and>
           ((\<forall>c. 0 \<le> c \<and> nat c < length child_array \<and> rank (nat c) < rank (nat (orig_rnodes ! i)) \<and>
                 node_type ! nat c = RET \<longrightarrow> Is_In c orig n_r = - 1) \<longrightarrow> flg = cnt)"
proof -
  from acyclic_input_entry[OF a i] have r: "nat (orig_rnodes ! i) < length child_array"
    by simp
  have p: "\<forall>c\<in>set (child_array ! nat (orig_rnodes ! i)).
             0 \<le> c \<and> nat c < length child_array \<and> rank (nat c) < rank (nat (orig_rnodes ! i))"
    using acyclic_input_children[OF a r] by blast
  from acyclic_walks[of child_array rank "child_array ! nat (orig_rnodes ! i)" "rank (nat (orig_rnodes ! i))"
         n_r orig node_type 0 0 0, OF acyclic_input_children[OF a] p]
  show ?thesis
    by (simp add: Count_Ret_Child_def Is_Tree_Component_def)
qed

lemma nth_update_cases:
  "xs[i := x] ! j = (if i = j \<and> i < length xs then x else xs ! j)"
  by (cases "i < length xs") (auto simp: nth_list_update list_update_beyond)

lemma partly_resolved_start:
  "length orig_rnodes = n_r \<Longrightarrow> partly_resolved orig_rnodes n_r (orig_rnodes, r_nodes, j)"
  by (simp add: partly_resolved_def)

lemma move_leaf_ret_partly:
  "partly_resolved orig_rnodes n_r s \<Longrightarrow>
   partly_resolved orig_rnodes n_r (move_leaf_ret node_type child_array i s)"
  by (auto simp: partly_resolved_def move_leaf_ret_def nth_update_cases split: prod.splits)

lemma fold_move_leaf_ret_partly:
  "partly_resolved orig_rnodes n_r s \<Longrightarrow>
   partly_resolved orig_rnodes n_r (fold (move_leaf_ret node_type child_array) is s)"
  by (induction "is" arbitrary: s) (simp_all add: move_leaf_ret_partly)

lemma move_tree_rets_acyclic:
  assumes a: "acyclic_input rank orig_rnodes n_r child_array node_type"
  shows "partly_resolved orig_rnodes n_r s \<Longrightarrow> \<forall>i\<in>set is. i < n_r \<Longrightarrow>
         \<exists>s'. move_tree_rets node_type child_array is s = Some s' \<and>
              partly_resolved orig_rnodes n_r s' \<and>
              (\<forall>i<n_r. fst s ! i = - 2 \<longrightarrow> fst s' ! i = - 2) \<and>
              (\<forall>i\<in>set is. fst s' ! i \<noteq> - 2 \<longrightarrow>
                   Is_Tree_Component (orig_rnodes ! i) node_type child_array \<noteq> Some 0)"
proof (induction "is" arbitrary: s)
  case Nil
  then show ?case by simp
next
  case (Cons i "is")
  obtain orig r j where s: "s = (orig, r, j)" by (metis prod_cases3)
  have i: "i < n_r" using Cons.prems(2) by simp
  have len: "length orig = n_r" using Cons.prems(1) s by (simp add: partly_resolved_def)
  have rest: "\<forall>i\<in>set is. i < n_r" using Cons.prems(2) by simp
  show ?case
  proof (cases "orig ! i = - 2")
    case True
    from Cons.IH[OF Cons.prems(1) rest] obtain s' where
      m: "move_tree_rets node_type child_array is s = Some s'" and
      p: "partly_resolved orig_rnodes n_r s'" and
      k: "\<forall>i<n_r. fst s ! i = - 2 \<longrightarrow> fst s' ! i = - 2" and
      t: "\<forall>i\<in>set is. fst s' ! i \<noteq> - 2 \<longrightarrow>
                   Is_Tree_Component (orig_rnodes ! i) node_type child_array \<noteq> Some 0"
      by blast
    have "move_tree_rets node_type child_array (i # is) s = Some s'"
      using True m by (simp add: s)
    moreover have "fst s' ! i = - 2"
      using k i True by (simp add: s)
    ultimately show ?thesis
      using p k t by auto
  next
    case False
    then have e: "orig ! i = orig_rnodes ! i"
      using Cons.prems(1) i by (auto simp: partly_resolved_def s)
    from acyclic_input_walk[OF a i, of orig] obtain cnt :: int where
      w: "Is_Tree_Component (orig_rnodes ! i) node_type child_array = Some (if 0 < cnt then 1 else 0)"
      by blast
    show ?thesis
    proof (cases "0 < cnt")
      case True
      from Cons.IH[OF Cons.prems(1) rest] obtain s' where
        m: "move_tree_rets node_type child_array is s = Some s'" and
        p: "partly_resolved orig_rnodes n_r s'" and
        k: "\<forall>i<n_r. fst s ! i = - 2 \<longrightarrow> fst s' ! i = - 2" and
        t: "\<forall>i\<in>set is. fst s' ! i \<noteq> - 2 \<longrightarrow>
                     Is_Tree_Component (orig_rnodes ! i) node_type child_array \<noteq> Some 0"
        by blast
      have "move_tree_rets node_type child_array (i # is) s = Some s'"
        using True False m w e by (simp add: s)
      moreover have "Is_Tree_Component (orig_rnodes ! i) node_type child_array \<noteq> Some 0"
        using True w by simp
      ultimately show ?thesis
        using p k t by auto
    next
      case nc: False
      let ?s1 = "(orig[i := - 2], r[j := orig ! i], j + 1)"
      have p1: "partly_resolved orig_rnodes n_r ?s1"
        using Cons.prems(1) by (auto simp: partly_resolved_def s nth_update_cases)
      from Cons.IH[OF p1 rest] obtain s' where
        m: "move_tree_rets node_type child_array is ?s1 = Some s'" and
        p: "partly_resolved orig_rnodes n_r s'" and
        k: "\<forall>i<n_r. fst ?s1 ! i = - 2 \<longrightarrow> fst s' ! i = - 2" and
        t: "\<forall>i\<in>set is. fst s' ! i \<noteq> - 2 \<longrightarrow>
                     Is_Tree_Component (orig_rnodes ! i) node_type child_array \<noteq> Some 0"
        by blast
      have "move_tree_rets node_type child_array (i # is) s = Some s'"
        using nc False m w e by (simp add: s)
      moreover have "fst s' ! i = - 2"
        using k i len by simp
      moreover have "\<forall>i<n_r. fst s ! i = - 2 \<longrightarrow> fst s' ! i = - 2"
        using k len by (auto simp: s nth_update_cases)
      ultimately show ?thesis
        using p t by auto
    qed
  qed
qed

lemma round_partly:
  assumes "partly_resolved orig_rnodes n_r s"
  shows "partly_resolved orig_rnodes n_r (fold emit_level ts s)"
  using assms
  by (auto simp: partly_resolved_def fold_emit_level_fst fold_update_length fold_update_nth)

lemma round_tree_rets:
  assumes "partly_resolved orig_rnodes n_r s"
    and "tree_rets_resolved orig_rnodes n_r node_type child_array s"
  shows "tree_rets_resolved orig_rnodes n_r node_type child_array (fold emit_level ts s)"
  using assms
  by (auto simp: partly_resolved_def tree_rets_resolved_def fold_emit_level_fst fold_update_nth
           split: if_splits)

lemma collect_level_acyclic:
  assumes a: "acyclic_input rank orig_rnodes n_r child_array node_type"
    and p: "\<forall>i<n_r. orig ! i = - 2 \<or> orig ! i = orig_rnodes ! i"
  shows "\<forall>i\<in>set is. i < n_r \<Longrightarrow>
         \<exists>level_ret. collect_level n_r orig node_type child_array is = Some level_ret \<and>
           (\<forall>i\<in>set is. orig ! i \<noteq> - 2 \<longrightarrow>
              (\<forall>cnt flg sz. Count_Ret_Child (orig ! i) (0, 0, 0) n_r orig node_type child_array =
                   Some (cnt, flg, sz) \<longrightarrow> 0 < flg \<and> flg = cnt \<longrightarrow> level_ret \<noteq> []))"
proof (induction "is")
  case Nil
  then show ?case by simp
next
  case (Cons i "is")
  have i: "i < n_r" using Cons.prems by simp
  from Cons.IH Cons.prems obtain rest where
    r: "collect_level n_r orig node_type child_array is = Some rest" and
    e: "\<forall>i\<in>set is. orig ! i \<noteq> - 2 \<longrightarrow>
              (\<forall>cnt flg sz. Count_Ret_Child (orig ! i) (0, 0, 0) n_r orig node_type child_array =
                   Some (cnt, flg, sz) \<longrightarrow> 0 < flg \<and> flg = cnt \<longrightarrow> rest \<noteq> [])"
    by auto
  show ?case
  proof (cases "orig ! i = - 2")
    case True
    with r e show ?thesis by auto
  next
    case False
    then have eq: "orig ! i = orig_rnodes ! i"
      using p i by auto
    from acyclic_input_walk[OF a i, of orig] obtain cnt flg sz where
      w: "Count_Ret_Child (orig ! i) (0, 0, 0) n_r orig node_type child_array = Some (cnt, flg, sz)"
      unfolding eq by blast
    have "collect_level n_r orig node_type child_array (i # is) =
          Some (if flg > 0 \<and> flg = cnt
                then \<lparr>tn_pnode = orig ! i, tn_value = sz, tn_index = i\<rparr> # rest
                else rest)"
      using False w r by simp
    with e w show ?thesis by auto
  qed
qed

lemma Is_In_resolved:
  "Is_In c orig n_r = - 1 \<longleftrightarrow> (\<forall>i<n_r. orig ! i \<noteq> c)"
  by (auto simp: Is_In_def list_ex_iff)

lemma acyclic_round_emits:
  assumes a: "acyclic_input rank orig_rnodes n_r child_array node_type"
    and p: "partly_resolved orig_rnodes n_r s"
    and t: "tree_rets_resolved orig_rnodes n_r node_type child_array s"
    and e: "Is_Empty n_r (fst s) = 0"
  shows "round_emits n_r node_type child_array s"
proof -
  let ?orig = "fst s"
  let ?P = "\<lambda>i. i < n_r \<and> ?orig ! i \<noteq> - 2"
  let ?m = "\<lambda>i. rank (nat (?orig ! i))"
  have pe: "\<forall>i<n_r. ?orig ! i = - 2 \<or> ?orig ! i = orig_rnodes ! i"
    using p by (simp add: partly_resolved_def)
  from e obtain i0 where "?P i0"
    by (auto simp: Is_Empty_def list_all_iff split: if_splits)
  from ex_has_least_nat[of ?P i0 ?m, OF this] obtain i where
    i: "i < n_r" "?orig ! i \<noteq> - 2" and least: "\<forall>y. ?P y \<longrightarrow> ?m i \<le> ?m y"
    by blast
  have eq: "?orig ! i = orig_rnodes ! i"
    using pe i by auto
  from acyclic_input_walk[OF a i(1), of ?orig] obtain cnt flg sz where
    w: "Count_Ret_Child (orig_rnodes ! i) (0, 0, 0) n_r ?orig node_type child_array = Some (cnt, flg, sz)"
    and pos: "0 \<le> cnt"
    and tc: "Is_Tree_Component (orig_rnodes ! i) node_type child_array = Some (if 0 < cnt then 1 else 0)"
    and q: "(\<forall>c. 0 \<le> c \<and> nat c < length child_array \<and> rank (nat c) < rank (nat (orig_rnodes ! i)) \<and>
                 node_type ! nat c = RET \<longrightarrow> Is_In c ?orig n_r = - 1) \<longrightarrow> flg = cnt"
    by blast
  have cnt: "0 < cnt"
    using t i tc by (auto simp: tree_rets_resolved_def split: if_splits)
  have "\<forall>c. 0 \<le> c \<and> nat c < length child_array \<and> rank (nat c) < rank (nat (orig_rnodes ! i)) \<and>
                 node_type ! nat c = RET \<longrightarrow> Is_In c ?orig n_r = - 1"
  proof (intro allI impI)
    fix c
    assume c: "0 \<le> c \<and> nat c < length child_array \<and> rank (nat c) < rank (nat (orig_rnodes ! i)) \<and>
                 node_type ! nat c = RET"
    then have "int (nat c) \<in> set orig_rnodes"
      using a by (auto simp: acyclic_input_def list_all_iff)
    with c have "c \<in> set orig_rnodes" by simp
    then obtain j where j: "j < n_r" "orig_rnodes ! j = c"
      using a by (auto simp: acyclic_input_def in_set_conv_nth)
    have d: "distinct orig_rnodes" and len: "length orig_rnodes = n_r"
      using a by (simp_all add: acyclic_input_def)
    show "Is_In c ?orig n_r = - 1"
      unfolding Is_In_resolved
    proof (intro allI impI)
      fix l
      assume l: "l < n_r"
      show "?orig ! l \<noteq> c"
      proof
        assume h: "?orig ! l = c"
        with c have "?orig ! l \<noteq> - 2" by auto
        with pe l have "?orig ! l = orig_rnodes ! l" by auto
        with h j have "orig_rnodes ! l = orig_rnodes ! j" by simp
        with nth_eq_iff_index_eq[OF d, of l j] len l j have "l = j" by blast
        from least l \<open>?orig ! l \<noteq> - 2\<close> have "?m i \<le> ?m l" by blast
        with h eq c show False by simp
      qed
    qed
  qed
  with q have fc: "flg = cnt" by blast
  from collect_level_acyclic[OF a pe, of "[0..<n_r]"] obtain level_ret where
    col: "collect_level n_r ?orig node_type child_array [0..<n_r] = Some level_ret" and
    ne: "\<forall>i\<in>set [0..<n_r]. ?orig ! i \<noteq> - 2 \<longrightarrow>
              (\<forall>cnt flg sz. Count_Ret_Child (?orig ! i) (0, 0, 0) n_r ?orig node_type child_array =
                   Some (cnt, flg, sz) \<longrightarrow> 0 < flg \<and> flg = cnt \<longrightarrow> level_ret \<noteq> [])"
    by auto
  from ne i w cnt fc have "level_ret \<noteq> []"
    unfolding eq[symmetric] by auto
  with col show ?thesis
    by (auto simp: round_emits_def split: list.splits)
qed

lemma level_rounds_acyclic:
  assumes p: "partly_resolved orig_rnodes n_r s"
    and t: "tree_rets_resolved orig_rnodes n_r node_type child_array s"
  shows "level_rounds n_r node_type child_array s s' \<Longrightarrow>
         partly_resolved orig_rnodes n_r s' \<and> tree_rets_resolved orig_rnodes n_r node_type child_array s'"
proof (induction rule: level_rounds.induct)
  case first_round
  from p t show ?case by simp
next
  case (next_round s' level_ret)
  then show ?case
    by (simp add: round_partly round_tree_rets)
qed

lemma acyclic_ordering_returns:
  assumes a: "acyclic_input rank orig_rnodes n_r child_array node_type"
  shows "\<exists>y. Sort_Rets_By_Level orig_rnodes r_nodes n_r child_array node_type = Some y"
proof -
  have len: "length orig_rnodes = n_r"
    using a by (simp add: acyclic_input_def)
  let ?s1 = "fold (move_leaf_ret node_type child_array) [0..<n_r] (orig_rnodes, r_nodes, 0)"
  have p1: "partly_resolved orig_rnodes n_r ?s1"
    by (rule fold_move_leaf_ret_partly) (rule partly_resolved_start[OF len])
  from move_tree_rets_acyclic[OF a p1, of "[0..<n_r]"] obtain s where
    m: "move_tree_rets node_type child_array [0..<n_r] ?s1 = Some s" and
    p: "partly_resolved orig_rnodes n_r s" and
    t: "\<forall>i\<in>set [0..<n_r]. fst s ! i \<noteq> - 2 \<longrightarrow>
                   Is_Tree_Component (orig_rnodes ! i) node_type child_array \<noteq> Some 0"
    by auto
  from t have t': "tree_rets_resolved orig_rnodes n_r node_type child_array s"
    by (simp add: tree_rets_resolved_def)
  have "\<forall>s'. level_rounds n_r node_type child_array s s' \<and> Is_Empty n_r (fst s') = 0 \<longrightarrow>
             round_emits n_r node_type child_array s'"
    using level_rounds_acyclic[OF p t'] acyclic_round_emits[OF a] by blast
  moreover have "n_r \<le> length (fst s)"
    using p by (simp add: partly_resolved_def)
  ultimately obtain y where "level_loop n_r node_type child_array s = Some y"
    using level_loop_terminates by blast
  with m show ?thesis
    by (auto simp: Sort_Rets_By_Level_def split: prod.splits)
qed

lemma layered_acyclic:
  "acyclic_input layered_rank [6, 7] 2 layered_children layered_types"
  by (simp add: acyclic_input_def layered_rank_def layered_children_def layered_types_def
        upt_conv_Cons)

lemma layered_rounds:
  "level_rounds 2 layered_types layered_children ([- 2, 7], [6, 7], 1) s' \<Longrightarrow>
   s' = ([- 2, 7], [6, 7], 1) \<or> s' = ([- 2, - 2], [6, 7], 2)"
proof (induction rule: level_rounds.induct)
  case first_round
  show ?case by simp
next
  case (next_round s' level_ret)
  have c: "collect_level 2 (fst ([- 2, 7], [6, 7], 1 :: nat)) layered_types layered_children [0..<2] =
        Some [\<lparr>tn_pnode = 7, tn_value = 2, tn_index = 1\<rparr>]"
    by code_simp
  have e: "Is_Empty 2 (fst ([- 2, - 2], [6, 7], 2 :: nat)) \<noteq> 0"
    by code_simp
  have f: "fold emit_level (qsort_level [\<lparr>tn_pnode = 7, tn_value = 2, tn_index = 1\<rparr>]) ([- 2, 7], [6, 7], 1) =
        ([- 2, - 2], [6, 7], 2)"
    by code_simp
  from next_round.IH next_round.hyps(2,3) c e f show ?case
    by auto
qed

text \<open>
  Claim C4, as amended. The source has no failure exit from the level ordering. When
  \<open>orig_rnodes\<close> has its \<open>n_r\<close> entries, \<open>Sort_Rets_By_Level\<close> returns
  exactly when its second rule returns and every round of the third rule that starts
  with an unresolved reticulation emits at least one reticulation; what it returns has
  no unresolved reticulation left. In particular it returns on every acyclic input.
  The third loop returns at once when no unresolved reticulation remains, and when
  unresolved reticulations remain and a round finds no reticulation all of whose
  reticulation children are already emitted, the round changes nothing and the loop
  never returns.
\<close>

theorem level_ordering_termination:
  assumes "n_r \<le> length orig_rnodes"
  shows "(Sort_Rets_By_Level orig_rnodes r_nodes n_r child_array node_type \<noteq> None \<longleftrightarrow>
          (\<exists>s. move_tree_rets node_type child_array [0..<n_r]
                 (fold (move_leaf_ret node_type child_array) [0..<n_r] (orig_rnodes, r_nodes, 0)) = Some s \<and>
               (\<forall>s'. level_rounds n_r node_type child_array s s' \<and> Is_Empty n_r (fst s') = 0 \<longrightarrow>
                     round_emits n_r node_type child_array s'))) \<and>
         (\<forall>y. Sort_Rets_By_Level orig_rnodes r_nodes n_r child_array node_type = Some y \<longrightarrow>
              Is_Empty n_r (fst y) \<noteq> 0) \<and>
         (acyclic_input rank orig_rnodes n_r child_array node_type \<longrightarrow>
          Sort_Rets_By_Level orig_rnodes r_nodes n_r child_array node_type \<noteq> None) \<and>
         (Is_Empty n_r (fst s0) \<noteq> 0 \<longrightarrow> level_loop n_r node_type child_array s0 = Some s0) \<and>
         (Is_Empty n_r (fst s0) = 0 \<and>
          collect_level n_r (fst s0) node_type child_array [0..<n_r] = Some [] \<longrightarrow>
          level_loop n_r node_type child_array s0 = None)"
proof (intro conjI allI impI iffI)
  let ?p2 = "move_tree_rets node_type child_array [0..<n_r]
                 (fold (move_leaf_ret node_type child_array) [0..<n_r] (orig_rnodes, r_nodes, 0))"
  {
    assume ret: "Sort_Rets_By_Level orig_rnodes r_nodes n_r child_array node_type \<noteq> None"
    then obtain s y where s: "?p2 = Some s" and y: "level_loop n_r node_type child_array s = Some y"
      by (auto simp: Sort_Rets_By_Level_def split: option.splits)
    have "\<forall>s'. level_rounds n_r node_type child_array s s' \<and> Is_Empty n_r (fst s') = 0 \<longrightarrow>
               round_emits n_r node_type child_array s'"
      using level_rounds_same_result[of n_r node_type child_array s] y level_loop_round_emits
      by metis
    with s show "\<exists>s. ?p2 = Some s \<and>
               (\<forall>s'. level_rounds n_r node_type child_array s s' \<and> Is_Empty n_r (fst s') = 0 \<longrightarrow>
                     round_emits n_r node_type child_array s')"
      by blast
  }
  {
    assume "\<exists>s. ?p2 = Some s \<and>
               (\<forall>s'. level_rounds n_r node_type child_array s s' \<and> Is_Empty n_r (fst s') = 0 \<longrightarrow>
                     round_emits n_r node_type child_array s')"
    then obtain s where s: "?p2 = Some s" and
      e: "\<forall>s'. level_rounds n_r node_type child_array s s' \<and> Is_Empty n_r (fst s') = 0 \<longrightarrow>
                     round_emits n_r node_type child_array s'"
      by blast
    from move_tree_rets_length[OF s] assms have "n_r \<le> length (fst s)"
      by (simp add: fold_move_leaf_ret_length)
    from level_loop_terminates[OF this e] obtain y where "level_loop n_r node_type child_array s = Some y"
      by blast
    with s show "Sort_Rets_By_Level orig_rnodes r_nodes n_r child_array node_type \<noteq> None"
      by (auto simp: Sort_Rets_By_Level_def split: option.splits prod.splits)
  }
  {
    fix y
    assume "Sort_Rets_By_Level orig_rnodes r_nodes n_r child_array node_type = Some y"
    then obtain s y' where "level_loop n_r node_type child_array s = Some y'" and "fst y = fst y'"
      by (auto simp: Sort_Rets_By_Level_def split: option.splits prod.splits)
    with level_loop_result_empty show "Is_Empty n_r (fst y) \<noteq> 0"
      by metis
  }
  {
    assume "acyclic_input rank orig_rnodes n_r child_array node_type"
    from acyclic_ordering_returns[OF this, of r_nodes]
    show "Sort_Rets_By_Level orig_rnodes r_nodes n_r child_array node_type \<noteq> None"
      by auto
  }
  {
    assume "Is_Empty n_r (fst s0) \<noteq> 0"
    then show "level_loop n_r node_type child_array s0 = Some s0"
      by (subst level_loop.simps) simp
  }
  {
    assume "Is_Empty n_r (fst s0) = 0 \<and>
      collect_level n_r (fst s0) node_type child_array [0..<n_r] = Some []"
    then show "level_loop n_r node_type child_array s0 = None"
      by (simp add: level_loop_stuck)
  }
qed

theorem level_ordering_termination_witness:
  "Sort_Rets_By_Level [6, 7] [6, 7] 2 layered_children layered_types \<noteq> None \<and>
   Sort_Rets_By_Level [6, 7] [0, 0] 2 layered_children layered_types \<noteq> None \<and>
   level_loop 2 cyclic_types cyclic_children ([6, 7], [6, 7], 0) = None \<and>
   level_loop 2 cyclic_types cyclic_children ([- 2, - 2], [6, 7], 2) = Some ([- 2, - 2], [6, 7], 2)"
proof -
  have p: "move_tree_rets layered_types layered_children [0..<2]
             (fold (move_leaf_ret layered_types layered_children) [0..<2] ([6, 7], [6, 7], 0)) =
           Some ([- 2, 7], [6, 7], 1)"
    by code_simp
  have r: "round_emits 2 layered_types layered_children ([- 2, 7], [6, 7], 1)"
    by code_simp
  have e: "Is_Empty 2 (fst ([- 2, - 2], [6, 7], 2 :: nat)) \<noteq> 0"
    by code_simp
  have l: "(2 :: nat) \<le> length [6, 7 :: int]"
    by simp
  have a: "Is_Empty 2 (fst ([6, 7], [6, 7], 0 :: nat)) = 0"
    by code_simp
  have b: "collect_level 2 (fst ([6, 7], [6, 7], 0 :: nat)) cyclic_types cyclic_children [0..<2] = Some []"
    by code_simp
  have h: "\<forall>s'. level_rounds 2 layered_types layered_children ([- 2, 7], [6, 7], 1) s' \<and>
                Is_Empty 2 (fst s') = 0 \<longrightarrow> round_emits 2 layered_types layered_children s'"
    using layered_rounds r e by blast
  from level_ordering_termination [OF l, of "[6, 7]" layered_children layered_types
         layered_rank "([6, 7], [6, 7], 0)"] p h
  have 1: "Sort_Rets_By_Level [6, 7] [6, 7] 2 layered_children layered_types \<noteq> None"
    by blast
  from level_ordering_termination [OF l, of "[0, 0]" layered_children layered_types
         layered_rank "([6, 7], [6, 7], 0)"] layered_acyclic
  have 2: "Sort_Rets_By_Level [6, 7] [0, 0] 2 layered_children layered_types \<noteq> None"
    by blast
  from level_ordering_termination [OF l, of "[6, 7]" cyclic_children cyclic_types
         layered_rank "([6, 7], [6, 7], 0)"] a b
  have 3: "level_loop 2 cyclic_types cyclic_children ([6, 7], [6, 7], 0) = None"
    by blast
  from level_ordering_termination [OF l, of "[6, 7]" cyclic_children cyclic_types
         layered_rank "([- 2, - 2], [6, 7], 2)"] e
  have 4: "level_loop 2 cyclic_types cyclic_children ([- 2, - 2], [6, 7], 2) = Some ([- 2, - 2], [6, 7], 2)"
    by blast
  from 1 2 3 4 show ?thesis by simp
qed

lemma main_search_diverges:
  assumes "Sort_Rets_By_Level
             (map int (filter (\<lambda>i. node_type ! i = RET) [0..<length node_strings]))
             (map int (filter (\<lambda>i. node_type ! i = RET) [0..<length node_strings])) n_r
             (fst (Child_Parent_Inform (length node_strings) start end (length start))) node_type = None"
  shows "main_search search node_strings node_type start end root' n_l n_r no1 input_leaves in_cluster = None"
  using assms by (simp add: main_search_def Let_def)

lemma cyclic_ordering_diverges:
  "Sort_Rets_By_Level [6, 7] [6, 7] 2 cyclic_children cyclic_types = None"
proof -
  have "level_loop 2 cyclic_types cyclic_children ([6, 7], [6, 7], 0) = None"
    by (rule level_loop_stuck; code_simp)
  moreover have "move_tree_rets cyclic_types cyclic_children [0..<2]
      (fold (move_leaf_ret cyclic_types cyclic_children) [0..<2] ([6, 7], [6, 7], 0)) =
      Some ([6, 7], [6, 7], 0)"
    by code_simp
  ultimately show ?thesis
    by (simp add: Sort_Rets_By_Level_def)
qed

text \<open>
  The claim as stated fails on a graph that passes validation: \<open>r1\<close> lies below
  \<open>r2\<close> and \<open>r2\<close> below \<open>r1\<close>. With one input leaf the program answers; with
  two, neither of the first two rules moves a reticulation, the third never finds one,
  and \<open>main\<close> does not return.
\<close>

theorem level_ordering_diverges_counterexample:
  "main (search_returns 50) 3 [''l1''] cyclic_network = Some (Trivial_Cluster, 0) \<and>
   main (search_returns 50) 3 [''l1'', ''l2''] cyclic_network = None"
proof -
  have a: "map int (filter (\<lambda>i. cyclic_types ! i = RET)
             [0..<length [''l1'', ''l2'', ''l3'', ''t1'', ''R'', ''t2'', ''r1'', ''r2'']]) = [6, 7]"
    by code_simp
  have b: "fst (Child_Parent_Inform
             (length [''l1'', ''l2'', ''l3'', ''t1'', ''R'', ''t2'', ''r1'', ''r2''])
             cyclic_start cyclic_end (length cyclic_start)) = cyclic_children"
    by code_simp
  have c: "Suc (Suc 0) = 2"
    by simp
  have "main_search (search_returns 50)
          [''l1'', ''l2'', ''l3'', ''t1'', ''R'', ''t2'', ''r1'', ''r2''] cyclic_types
          cyclic_start cyclic_end (Some 4) (Suc (Suc (Suc 0))) (Suc (Suc 0)) (Suc (Suc 0))
          [0, 1] [1, 1, 0] = None"
    by (rule main_search_diverges) (simp only: a b c cyclic_ordering_diverges)
  moreover have "main (search_returns 50) 3 [''l1'', ''l2''] cyclic_network =
        main_search (search_returns 50)
          [''l1'', ''l2'', ''l3'', ''t1'', ''R'', ''t2'', ''r1'', ''r2''] cyclic_types
          cyclic_start cyclic_end (Some 4) (Suc (Suc (Suc 0))) (Suc (Suc 0)) (Suc (Suc 0))
          [0, 1] [1, 1, 0]"
    by (simp add: main_def main_leaves_def Let_def read_network_def read_edge_def Check_Name_def
          Node_Type_Inform1_def classify_node_def in_degree_def out_degree_def network_leaves_def
          Move_Leaves_Front_def exchange_label_def Is_In_Str_def read_leaf_def cyclic_network_def
          cyclic_types_def cyclic_start_def cyclic_end_def)
  moreover have "main (search_returns 50) 3 [''l1''] cyclic_network = Some (Trivial_Cluster, 0)"
    by code_simp
  ultimately show ?thesis by simp
qed

subsection \<open>The driver: stable and unstable components\<close>

text \<open>Every tree that \<open>Build_Comp_Revised\<close> returns has the shape of a component.\<close>

lemma Build_Comp_Revised_shape:
  "Build_Comp_Revised fuel l ca nt = Some (t, sz, ntn) \<Longrightarrow> component_shape nt t \<and> label t = l"
  and Build_children_shape:
  "Build_children fuel' cs ca' nt' = Some (ts, sz', ntn') \<Longrightarrow>
     list_all (component_shape nt') ts \<and> map label ts = cs"
proof (induction fuel l ca nt and fuel' cs ca' nt' arbitrary: t sz ntn and ts sz' ntn'
       rule: Build_Comp_Revised_Build_children.induct)
  case (1 l child_array node_type)
  then show ?case by simp
next
  case (2 fuel l child_array node_type)
  then show ?case by (auto split: option.splits if_splits)
next
  case (3 fuel child_array node_type)
  then show ?case by simp
next
  case (4 fuel c cs child_array node_type)
  then show ?case by (auto split: option.splits)
qed

lemma Is_Stable_node_iff:
  "component_shape nt t \<Longrightarrow>
   Is_Stable_node t nt ifl lfb = 1 \<longleftrightarrow> (\<exists>l \<in> set (tree_labels t). stable_witness nt ifl lfb l)"
proof (induction t)
  case (Node l f cs)
  have IH: "\<And>c. c \<in> set cs \<Longrightarrow>
      Is_Stable_node c nt ifl lfb = 1 \<longleftrightarrow> (\<exists>l \<in> set (tree_labels c). stable_witness nt ifl lfb l)"
    using Node by (auto simp: list_all_iff)
  show ?case
  proof (cases "nt ! nat l = LEAVE \<or> nt ! nat l = RET")
    case True
    with Node.prems have "cs = []" by simp
    with True show ?thesis by (auto simp: stable_witness_def)
  next
    case False
    then have "\<not> stable_witness nt ifl lfb l" by (auto simp: stable_witness_def)
    with False IH show ?thesis
      by (auto simp: list_ex_iff)
  qed
qed

lemma Find_UnStable_lf_in:
  "component_shape nt t \<Longrightarrow>
   Find_UnStable t B no1 nt ifl lfb (ri, ro, li, lo) = (ri', ro', li', lo') \<Longrightarrow>
   li' = li @ map (\<lambda>l. lfb ! nat l) (filter (cross_ret_in nt ifl lfb B no1) (tree_labels t))"
proof (induction t arbitrary: ri ro li lo ri' ro' li' lo')
  case (Node l f cs)
  show ?case
  proof (cases "nt ! nat l = LEAVE \<or> nt ! nat l = RET")
    case True
    with Node.prems have "cs = []" by simp
    with True Node.prems(2) show ?thesis
      by (auto simp: cross_ret_in_def Let_def split: if_splits)
  next
    case False
    have shp: "\<And>c. c \<in> set cs \<Longrightarrow> component_shape nt c"
      using Node.prems(1) by (auto simp: list_all_iff)
    have step: "\<And>ri ro li lo ri' ro' li' lo'. set ds \<subseteq> set cs \<Longrightarrow>
        fold (\<lambda>c a. Find_UnStable c B no1 nt ifl lfb a) ds (ri, ro, li, lo) = (ri', ro', li', lo') \<Longrightarrow>
        li' = li @ map (\<lambda>l. lfb ! nat l) (filter (cross_ret_in nt ifl lfb B no1) (concat (map tree_labels ds)))" for ds
    proof (induction ds)
      case Nil
      then show ?case by simp
    next
      case (Cons d ds)
      obtain ri1 ro1 li1 lo1 where d: "Find_UnStable d B no1 nt ifl lfb (ri, ro, li, lo) = (ri1, ro1, li1, lo1)"
        by (metis prod_cases4)
      have "d \<in> set cs" using Cons.prems(1) by simp
      from Node.IH[OF this shp[OF this] d]
      have l1: "li1 = li @ map (\<lambda>l. lfb ! nat l) (filter (cross_ret_in nt ifl lfb B no1) (tree_labels d))" .
      from Cons.prems have "fold (\<lambda>c a. Find_UnStable c B no1 nt ifl lfb a) ds (ri1, ro1, li1, lo1) = (ri', ro', li', lo')"
        by (simp add: d)
      from Cons.IH[OF _ this] Cons.prems(1) l1 show ?case by simp
    qed
    from False Node.prems(2) have "fold (\<lambda>c a. Find_UnStable c B no1 nt ifl lfb a) cs (ri, ro, li, lo) = (ri', ro', li', lo')"
      by simp
    moreover from False have "\<not> cross_ret_in nt ifl lfb B no1 l"
      by (simp add: cross_ret_in_def)
    ultimately show ?thesis
      using step[OF subset_refl] by simp
  qed
qed

text \<open>
  Claim C1. For a component tree of the shape the builder produces, \<open>Is_Stable\<close>
  answers \<open>1\<close> exactly when the tree contains a node classified \<open>LEAVE\<close>, or a node
  classified \<open>RET\<close> whose flag is \<open>INNER\<close> and whose \<open>lf_below\<close> is at least
  \<open>0\<close>. A component with a tree is sent to the stable branch when this holds, and to
  the unstable branch otherwise.
\<close>

theorem stable_routing:
  assumes "tree_com p = Some t" and "component_shape node_type t"
  shows "(Is_Stable (tree_com p) node_type inner_flag lf_below = 1 \<longleftrightarrow>
            (\<exists>l \<in> set (tree_labels t). stable_witness node_type inner_flag lf_below l)) \<and>
         (if \<exists>l \<in> set (tree_labels t). stable_witness node_type inner_flag lf_below l
          then Cluster_Containment_branch (p # next) node_type inner_flag lf_below no1 input_leaves = Stable_Branch
          else splitter_branch
                 (Cluster_Containment_branch (p # next) node_type inner_flag lf_below no1 input_leaves))"
  using assms Is_Stable_node_iff[OF assms(2), of inner_flag lf_below]
  by (auto simp: Cluster_Containment_branch_def Is_Stable_def split: prod.splits)

theorem stable_routing_witness:
  "Cluster_Containment_branch [reference_root_component] reference_types
     [- 2, - 2, - 2, - 2, - 2, 4, 5, - 2, - 2, - 2] [- 2, - 2, - 2, - 2, - 2, 0, - 2, - 2, - 2, - 2]
     2 [1, 2] = Stable_Branch \<and>
   splitter_branch
     (Cluster_Containment_branch [sample_component] sample_types
        [- 2, - 2, - 2, 5, 5, 5] [- 2, - 2, - 2, 0, 1, - 2] 1 [1])"
proof -
  have "Build_Comp_Revised 6 6 reference_children reference_types =
          Some (reference_root_tree, 9, 7)"
    by code_simp
  then have b: "component_shape reference_types reference_root_tree"
    by (rule Build_Comp_Revised_shape [THEN conjunct1])
  have a: "tree_com reference_root_component = Some reference_root_tree"
    and c: "\<exists>l \<in> set (tree_labels reference_root_tree).
              stable_witness reference_types [- 2, - 2, - 2, - 2, - 2, 4, 5, - 2, - 2, - 2]
                [- 2, - 2, - 2, - 2, - 2, 0, - 2, - 2, - 2, - 2] l"
    by code_simp+
  have d: "tree_com sample_component = Some sample_tree"
    and e: "component_shape sample_types sample_tree"
    and f: "\<not> (\<exists>l \<in> set (tree_labels sample_tree).
              stable_witness sample_types [- 2, - 2, - 2, 5, 5, 5] [- 2, - 2, - 2, 0, 1, - 2] l)"
    by code_simp+
  from stable_routing [OF a b, of "[- 2, - 2, - 2, - 2, - 2, 4, 5, - 2, - 2, - 2]"
         "[- 2, - 2, - 2, - 2, - 2, 0, - 2, - 2, - 2, - 2]" "[]" 2 "[1, 2]"] c
       stable_routing [OF d e, of "[- 2, - 2, - 2, 5, 5, 5]" "[- 2, - 2, - 2, 0, 1, - 2]" "[]" 1 "[1]"] f
  show ?thesis by presburger
qed

text \<open>
  Claim C3. In the unstable branch, when the cross reticulations of the component whose
  current leaf is an input leaf are as many as the input leaves, the call reports the
  input as the soft cluster of the root of the component tree and returns \<open>50\<close>; the
  network is not split.
\<close>

theorem splitter_short_circuit:
  assumes "tree_com p = Some t" and "component_shape node_type t"
    and "Is_Stable (tree_com p) node_type inner_flag lf_below \<noteq> 1"
    and "length (filter (cross_ret_in node_type inner_flag lf_below input_leaves no1) (tree_labels t)) = no1"
  shows "Cluster_Containment_branch (p # next) node_type inner_flag lf_below no1 input_leaves
           = Report_Cluster (label t) \<and>
         returned (Cluster_Containment_branch (p # next) node_type inner_flag lf_below no1 input_leaves)
           = Some 50"
proof -
  obtain ri ro li lo where f: "Find_UnStable t input_leaves no1 node_type inner_flag lf_below ([], [], [], []) = (ri, ro, li, lo)"
    by (metis prod_cases4)
  from Find_UnStable_lf_in[OF assms(2) f] assms(4) have "length li = no1" by simp
  with assms(1,3) f show ?thesis
    by (simp add: Cluster_Containment_branch_def)
qed

theorem splitter_short_circuit_witness:
  "Cluster_Containment_branch [sample_component] sample_types
     [- 2, - 2, - 2, 5, 5, 5] [- 2, - 2, - 2, 0, 1, - 2] 2 [0, 1] = Report_Cluster 2 \<and>
   returned (Cluster_Containment_branch [sample_component] sample_types
     [- 2, - 2, - 2, 5, 5, 5] [- 2, - 2, - 2, 0, 1, - 2] 2 [0, 1]) = Some 50"
proof -
  have a: "tree_com sample_component = Some sample_tree"
    and b: "component_shape sample_types sample_tree"
    and c: "Is_Stable (tree_com sample_component) sample_types [- 2, - 2, - 2, 5, 5, 5]
              [- 2, - 2, - 2, 0, 1, - 2] \<noteq> 1"
    and d: "length (filter (cross_ret_in sample_types [- 2, - 2, - 2, 5, 5, 5]
              [- 2, - 2, - 2, 0, 1, - 2] [0, 1] 2) (tree_labels sample_tree)) = 2"
    and e: "label sample_tree = 2"
    by code_simp+
  from splitter_short_circuit [OF a b c d, of "[]"] e show ?thesis by simp
qed

subsection \<open>Normalization of the revised reticulations\<close>

lemma normalize_ret_parallel_eq: "normalize_ret_parallel = normalize_ret"
  by (rule ext)+ (simp add: normalize_ret_parallel_def normalize_ret_def)

lemma normalize_revised_parallel_eq: "normalize_revised_parallel r_nodes n_r s = normalize_revised r_nodes n_r s"
  by (simp add: normalize_revised_parallel_def normalize_revised_def normalize_ret_parallel_eq)

lemma normalize_ret_length:
  "normalize_ret r (ifl, sd) = (ifl', sd') \<Longrightarrow> length ifl' = length ifl \<and> length sd' = length sd"
  by (auto simp: normalize_ret_def split: if_splits)

lemma fold_normalize_ret:
  assumes "fold normalize_ret rs (ifl, sd) = (ifl', sd')"
    and "\<forall>r \<in> set rs. 0 \<le> r \<and> nat r < length ifl \<and> nat r < length sd"
    and "x < length ifl" "x < length sd"
  shows "length ifl' = length ifl \<and> length sd' = length sd \<and>
         (if int x \<in> set rs then normalized ifl sd ifl' sd' x
          else sd' ! x = sd ! x \<and> ifl' ! x = ifl ! x)"
  using assms
proof (induction rs arbitrary: ifl sd)
  case Nil
  then show ?case by simp
next
  case (Cons r rs)
  obtain ifl1 sd1 where s: "normalize_ret r (ifl, sd) = (ifl1, sd1)"
    by (metis surj_pair)
  have len: "length ifl1 = length ifl" "length sd1 = length sd"
    using normalize_ret_length[OF s] by auto
  have r: "0 \<le> r" "nat r < length ifl" "nat r < length sd"
    using Cons.prems(2) by auto
  have rest: "fold normalize_ret rs (ifl1, sd1) = (ifl', sd')"
    using Cons.prems(1) s by simp
  have IH: "length ifl' = length ifl1 \<and> length sd' = length sd1 \<and>
         (if int x \<in> set rs then normalized ifl1 sd1 ifl' sd' x
          else sd' ! x = sd1 ! x \<and> ifl' ! x = ifl1 ! x)"
    using Cons.IH[OF rest] Cons.prems(2,3,4) len by auto
  show ?case
  proof (cases "nat r = x")
    case True
    then have rx: "r = int x" using r by simp
    have one: "normalized ifl sd ifl1 sd1 x \<and> ifl1 ! x \<noteq> REVISED"
      using s True r Cons.prems(3,4)
      by (auto simp: normalize_ret_def normalized_def REVISED_def CROSS_def INNER_def split: if_splits)
    with IH have "normalized ifl sd ifl' sd' x"
      by (auto simp: normalized_def split: if_splits)
    with IH len rx show ?thesis by simp
  next
    case False
    then have ne: "r \<noteq> int x" by auto
    have same: "ifl1 ! x = ifl ! x" "sd1 ! x = sd ! x"
      using s False by (auto simp: normalize_ret_def split: if_splits)
    with IH len ne show ?thesis
      by (auto simp: normalized_def)
  qed
qed

text \<open>
  Claim C2. After the loop that follows the leaf substitution, every reticulation of
  \<open>r_nodes\<close> whose flag was \<open>REVISED\<close> has, if its \<open>super_deg\<close> was above \<open>2\<close>,
  that value less one and the flag \<open>CROSS\<close>, and otherwise \<open>super_deg = 1\<close> and the
  flag \<open>INNER\<close>; the loop of SoftRFDist_parallel.c gives the same arrays.
\<close>

theorem revised_normalization:
  assumes "\<forall>i < n_r. 0 \<le> r_nodes ! i \<and> nat (r_nodes ! i) < length inner_flag \<and>
                    nat (r_nodes ! i) < length super_deg"
    and "i < n_r" and "r = nat (r_nodes ! i)"
    and "inner_flag ! r = REVISED"
    and "normalize_revised r_nodes n_r (inner_flag, super_deg) = (inner_flag', super_deg')"
  shows "(if super_deg ! r > 2
          then super_deg' ! r = super_deg ! r - 1 \<and> inner_flag' ! r = CROSS
          else super_deg' ! r = 1 \<and> inner_flag' ! r = INNER) \<and>
         normalize_revised_parallel r_nodes n_r (inner_flag, super_deg) = (inner_flag', super_deg')"
proof -
  let ?rs = "map (\<lambda>i. r_nodes ! i) [0..<n_r]"
  have f: "fold normalize_ret ?rs (inner_flag, super_deg) = (inner_flag', super_deg')"
    using assms(5) by (simp add: normalize_revised_def fold_map comp_def)
  have v: "\<forall>r \<in> set ?rs. 0 \<le> r \<and> nat r < length inner_flag \<and> nat r < length super_deg"
    using assms(1) by auto
  have x: "r < length inner_flag" "r < length super_deg" "int r \<in> set ?rs"
    using assms(1,2,3) by force+
  from fold_normalize_ret[OF f v x(1,2)] x(3) assms(4) show ?thesis
    by (simp add: normalized_def normalize_revised_parallel_eq assms(5))
qed

theorem revised_normalization_witness:
  "normalize_revised [3, 4] 2 ([0, 0, 0, 6, 6, 5], [0, 0, 0, 3, 2, 0]) =
     ([0, 0, 0, 5, 4, 5], [0, 0, 0, 2, 1, 0]) \<and>
   normalize_revised_parallel [3, 4] 2 ([0, 0, 0, 6, 6, 5], [0, 0, 0, 3, 2, 0]) =
     ([0, 0, 0, 5, 4, 5], [0, 0, 0, 2, 1, 0])"
proof -
  have a: "\<forall>i < 2. 0 \<le> [3, 4 :: int] ! i \<and> nat ([3, 4] ! i) < length [0, 0, 0, 6, 6, 5 :: int] \<and>
             nat ([3, 4] ! i) < length [0, 0, 0, 3, 2, 0 :: int]"
    by (simp add: less_Suc_eq numeral_2_eq_2)
  have b: "(0 :: nat) < 2" and c: "(3 :: nat) = nat ([3, 4] ! 0)"
    and d: "[0, 0, 0, 6, 6, 5] ! 3 = REVISED"
    and e: "normalize_revised [3, 4] 2 ([0, 0, 0, 6, 6, 5], [0, 0, 0, 3, 2, 0]) =
              ([0, 0, 0, 5, 4, 5], [0, 0, 0, 2, 1, 0])"
    by code_simp+
  from revised_normalization [OF a b c d e] e show ?thesis by blast
qed

subsection \<open>The distance programs\<close>

lemma Is_Cluster_swap:
  "net_n_l net1 = net_n_l net2 \<Longrightarrow>
   Is_Cluster cc a r (swap_res s) net2 net1 = map_option swap_res (Is_Cluster cc a r s net1 net2)"
  by (cases s) (auto simp: Is_Cluster_def swap_res_def Let_def split: option.splits)

lemma Is_Cluster_all_swap:
  "net_n_l net1 = net_n_l net2 \<Longrightarrow>
   Is_Cluster_all cc k as (swap_res s) net2 net1 = map_option swap_res (Is_Cluster_all cc k as s net1 net2)"
proof (induction as arbitrary: s)
  case Nil
  then show ?case by simp
next
  case (Cons a as)
  then show ?case
    by (cases "Is_Cluster cc a k s net1 net2") (simp_all add: Is_Cluster_swap)
qed

lemma subset_sizes_swap:
  "net_n_l net1 = net_n_l net2 \<Longrightarrow>
   subset_sizes cc ks (swap_res s) net2 net1 = map_option swap_res (subset_sizes cc ks s net1 net2)"
proof (induction ks arbitrary: s)
  case Nil
  then show ?case by simp
next
  case (Cons k ks)
  show ?case
  proof (cases "nChoosek (int (net_n_l net1)) (int k)")
    case None
    with Cons.prems show ?thesis by simp
  next
    case (Some no)
    show ?thesis
    proof (cases "Subset_CCP cc k no s net1 net2")
      case None
      with Some Cons.prems show ?thesis
        by (simp add: Subset_CCP_def Is_Cluster_all_swap)
    next
      case (Some s')
      with \<open>nChoosek (int (net_n_l net1)) (int k) = Some no\<close> Cons.prems Cons.IH[OF Cons.prems, of s']
      show ?thesis
        by (simp add: Subset_CCP_def Is_Cluster_all_swap)
    qed
  qed
qed

text \<open>
  Claim C8. For two networks that pass the leaf check (the same number of leaves and the
  same names at the first \<open>n_l\<close> positions) the computed distance does not depend on
  the order of the two networks.
\<close>

theorem distance_symmetric:
  assumes "net_n_l net1 = net_n_l net2"
    and "\<forall>i < net_n_l net1. net_node_strings net1 ! i = net_node_strings net2 ! i"
  shows "Find_Cluster_Distance cc net1 net2 = Find_Cluster_Distance cc net2 net1"
proof -
  let ?rlen = "(2 ^ net_n_l net1 + 31) div 32 :: nat"
  let ?res = "replicate ?rlen (0 :: 32 word)"
  have names: "\<not> list_ex (\<lambda>i. net_node_strings net1 ! i \<noteq> net_node_strings net2 ! i) [0..<net_n_l net1]"
       "\<not> list_ex (\<lambda>i. net_node_strings net2 ! i \<noteq> net_node_strings net1 ! i) [0..<net_n_l net2]"
    using assms by (auto simp: list_ex_iff)
  have sw: "subset_sizes cc [1..<net_n_l net1] (?res, ?res, 0) net2 net1 =
        map_option swap_res (subset_sizes cc [1..<net_n_l net1] (?res, ?res, 0) net1 net2)"
    using subset_sizes_swap[OF assms(1), of cc "[1..<net_n_l net1]" "(?res, ?res, 0)"]
    by (simp add: swap_res_def)
  show ?thesis
  proof (cases "subset_sizes cc [1..<net_n_l net1] (?res, ?res, 0) net1 net2")
    case None
    with sw names assms(1) show ?thesis
      by (simp add: Find_Cluster_Distance_def Let_def)
  next
    case (Some s)
    obtain res1 res2 index where s: "s = (res1, res2, index)" by (cases s) auto
    from Some sw s names assms(1) show ?thesis
      by (simp add: Find_Cluster_Distance_def Let_def swap_res_def xor.commute)
  qed
qed

theorem distance_symmetric_witness:
  "Find_Cluster_Distance sample_cc (sample_net 0) (sample_net 1) = Some (Distance 1) \<and>
   Find_Cluster_Distance sample_cc (sample_net 1) (sample_net 0) = Some (Distance 1)"
proof -
  have a: "net_n_l (sample_net 0) = net_n_l (sample_net 1)"
    by (simp add: sample_net_def)
  have b: "\<forall>i < net_n_l (sample_net 0).
             net_node_strings (sample_net 0) ! i = net_node_strings (sample_net 1) ! i"
    by (simp add: sample_net_def)
  have c: "Find_Cluster_Distance sample_cc (sample_net 0) (sample_net 1) = Some (Distance 1)"
    by code_simp
  from distance_symmetric [OF a b, of sample_cc] c show ?thesis by simp
qed

text \<open>
  Claim C10. With two arguments that are the same string, both distance programs print
  the distance \<open>0.0\<close> and return; the result does not depend on what reading,
  validating or searching the named files would do.
\<close>

theorem same_arguments:
  assumes "argc = 3" and "argv ! 1 = argv ! 2"
  shows "main_print preprocess cc argc argv = Some (Printed_Same_Files 0) \<and>
         main_parallel find_cluster_distance argc argv = Some (Printed_Same_Files 0)"
  using assms by (simp add: main_print_def main_parallel_def)

theorem same_arguments_witness:
  "main_print missing_file no_cc 3 [''srfd'', ''missing.txt'', ''missing.txt''] =
     Some (Printed_Same_Files 0) \<and>
   main_parallel no_distance 3 [''srfd'', ''missing.txt'', ''missing.txt''] =
     Some (Printed_Same_Files 0)"
proof -
  have "[''srfd'', ''missing.txt'', ''missing.txt''] ! 1 =
        [''srfd'', ''missing.txt'', ''missing.txt''] ! 2"
    by simp
  from same_arguments [OF refl this, of missing_file no_cc no_distance] show ?thesis
    by simp
qed

subsection \<open>Subset enumeration\<close>

lemma i4vec_indicator0_eq:
  "n \<le> length a \<Longrightarrow> i4vec_indicator0 n a = map int [0..<n] @ drop n a"
proof (induction n)
  case 0
  then show ?case by (simp add: i4vec_indicator0_def)
next
  case (Suc n)
  then have IH: "i4vec_indicator0 n a = map int [0..<n] @ drop n a" by simp
  have d: "drop n a = a ! n # drop (Suc n) a"
    using Suc.prems by (simp add: Cons_nth_drop_Suc)
  have "i4vec_indicator0 (Suc n) a = (i4vec_indicator0 n a)[n := int n]"
    by (simp add: i4vec_indicator0_def)
  also have "\<dots> = map int [0..<n] @ (drop n a)[0 := int n]"
    by (simp add: IH list_update_append)
  also have "(drop n a)[0 := int n] = int n # drop (Suc n) a"
    by (subst d) simp
  finally show ?case by simp
qed

lemma colex_rank_from_append:
  "colex_rank_from i (xs @ ys) = colex_rank_from i xs + colex_rank_from (i + length xs) ys"
  by (induction xs arbitrary: i) auto

lemma colex_rank_from_indicator: "colex_rank_from (Suc i) (map int [i..<i + m]) = 0"
proof (induction m arbitrary: i)
  case 0 then show ?case by simp
next
  case (Suc m)
  have "[i..<i + Suc m] = i # [Suc i..<Suc i + m]" by (simp add: upt_rec)
  then show ?case using Suc[of "Suc i"] by simp
qed

lemma hockey: "Suc (\<Sum>i<j. (m + i) choose (Suc i)) = (m + j) choose j"
proof (induction j)
  case 0 then show ?case by simp
next
  case (Suc j)
  have "Suc (\<Sum>i<Suc j. (m + i) choose (Suc i)) = Suc (\<Sum>i<j. (m + i) choose (Suc i)) + ((m + j) choose (Suc j))"
    by simp
  also have "\<dots> = ((m + j) choose j) + ((m + j) choose (Suc j))"
    by (simp only: Suc)
  also have "\<dots> = (m + Suc j) choose (Suc j)"
    by simp
  finally show ?case .
qed

lemma colex_rank_from_run:
  "colex_rank_from (Suc i) (map (\<lambda>t. int (m + t)) [i..<i + j]) = (\<Sum>t<j. (m + i + t) choose (Suc (i + t)))"
proof (induction j arbitrary: i)
  case 0 then show ?case by simp
next
  case (Suc j)
  have u: "[i..<i + Suc j] = i # [Suc i..<Suc i + j]" by (simp add: upt_rec)
  have "colex_rank_from (Suc i) (map (\<lambda>t. int (m + t)) [i..<i + Suc j]) =
      (nat (int (m + i)) choose Suc i) + colex_rank_from (Suc (Suc i)) (map (\<lambda>t. int (m + t)) [Suc i..<Suc i + j])"
    by (simp only: u list.map colex_rank_from.simps)
  also have "\<dots> = ((m + i) choose Suc i) + (\<Sum>t<j. (m + Suc i + t) choose (Suc (Suc i + t)))"
    by (simp only: Suc nat_int)
  also have "\<dots> = (\<Sum>t<Suc j. (m + i + t) choose (Suc (i + t)))"
    by (subst sum.lessThan_Suc_shift) (simp del: binomial_Suc_Suc)
  finally show ?case .
qed

lemma ksub_next_shape:
  assumes k: "length a = k" "0 < k"
    and srt: "sorted_wrt (<) a"
    and nonneg: "0 \<le> a ! 0"
    and guard: "a ! 0 < int n - int k + 1"
  shows "\<exists>j m R. a = map (\<lambda>t. int (m + t)) [0..<j] @ int (m + j) # R \<and>
                 ksub_next n k a = map int [0..<j] @ int (m + j + 1) # R \<and>
                 (\<forall>x \<in> set R. int (m + j + 1) < x)"
proof -
  define P where "P = (\<lambda>j. a ! j + 1 < a ! (j + 1))"
  define j where "j = (case List.find P [0..<k - 1] of None \<Rightarrow> k - 1 | Some j \<Rightarrow> j)"
  define m where "m = nat (a ! 0)"
  have jk: "j < k"
    using k(2) by (auto simp: j_def find_Some_iff split: option.splits)
  have before: "\<not> P i" if "i < j" for i
  proof (cases "List.find P [0..<k - 1]")
    case None
    then have "j = k - 1" by (simp add: j_def)
    with that None show ?thesis by (auto simp: find_None_iff)
  next
    case (Some j')
    then have jj: "j = j'" by (simp add: j_def)
    from Some obtain q where q: "q < length [0..<k - 1]" "[0..<k - 1] ! q = j'"
        "\<forall>p<q. \<not> P ([0..<k - 1] ! p)"
      by (auto simp: find_Some_iff)
    from q(1,2) have "q = j'" by simp
    with q(1,3) that jj show ?thesis by auto
  qed
  have at: "P j" if "j < k - 1"
  proof (cases "List.find P [0..<k - 1]")
    case None
    with that show ?thesis by (simp add: j_def)
  next
    case (Some j')
    then have "j = j'" by (simp add: j_def)
    moreover from Some have "P j'" by (auto simp: find_Some_iff)
    ultimately show ?thesis by simp
  qed
  have run: "a ! i = int (m + i)" if "i \<le> j" for i
    using that
  proof (induction i)
    case 0
    then show ?case using nonneg by (simp add: m_def)
  next
    case (Suc i)
    then have i: "i < j" "a ! i = int (m + i)" by auto
    from i(1) jk have "a ! i < a ! Suc i"
      using sorted_wrt_nth_less[OF srt, of i "Suc i"] k(1) by simp
    moreover from before[OF i(1)] have "\<not> a ! i + 1 < a ! Suc i"
      by (simp add: P_def)
    ultimately show ?case using i(2) by simp
  qed
  have tk: "take j a = map (\<lambda>t. int (m + t)) [0..<j]"
    using jk k(1) run by (intro nth_equalityI) auto
  have dec: "a = map (\<lambda>t. int (m + t)) [0..<j] @ int (m + j) # drop (Suc j) a"
    using id_take_nth_drop[of j a] jk k(1) tk run[of j] by simp
  have above: "int (m + j + 1) < x" if "x \<in> set (drop (Suc j) a)" for x
  proof -
    from that obtain i where i: "i < length (drop (Suc j) a)" "x = drop (Suc j) a ! i"
      by (auto simp: in_set_conv_nth)
    then have il: "Suc j + i < k" "x = a ! (Suc j + i)"
      using k(1) by auto
    then have "j < k - 1" by simp
    from at[OF this] have "a ! j + 1 < a ! Suc j" by (simp add: P_def)
    moreover have "a ! Suc j \<le> a ! (Suc j + i)"
    proof (cases i)
      case 0 then show ?thesis by simp
    next
      case (Suc i')
      then have "a ! Suc j < a ! (Suc j + i)"
        using sorted_wrt_nth_less[OF srt, of "Suc j" "Suc j + i"] il(1) k(1) by simp
      then show ?thesis by simp
    qed
    ultimately show ?thesis using run[of j] il(2) by simp
  qed
  have ind: "i4vec_indicator0 j a = map int [0..<j] @ drop j a"
    using jk k(1) by (intro i4vec_indicator0_eq) simp
  have dj: "drop j a = int (m + j) # drop (Suc j) a"
    using jk k(1) run[of j] Cons_nth_drop_Suc[of j a] by simp
  have "ksub_next n k a = (i4vec_indicator0 j a)[j := i4vec_indicator0 j a ! j + 1]"
    using guard by (simp add: ksub_next_def Let_def j_def P_def)
  also have "\<dots> = map int [0..<j] @ int (m + j + 1) # drop (Suc j) a"
    by (simp add: ind dj list_update_append nth_append)
  finally show ?thesis
    using dec above by blast
qed

lemma card_k_subsets: "card (k_subsets n k) = n choose k"
proof -
  let ?S = "{B. B \<subseteq> {0..<int n} \<and> card B = k}"
  have "bij_betw set (k_subsets n k) ?S"
  proof (rule bij_betwI')
    fix x y assume "x \<in> k_subsets n k" "y \<in> k_subsets n k"
    then show "(set x = set y) = (x = y)"
      by (auto simp: k_subsets_def intro: strict_sorted_equal)
  next
    fix x assume "x \<in> k_subsets n k"
    then show "set x \<in> ?S"
      by (auto simp: k_subsets_def strict_sorted_iff distinct_card)
  next
    fix B assume B: "B \<in> ?S"
    then have fin: "finite B" by (auto intro: finite_subset)
    from sorted_list_of_set_unique[OF fin, of "sorted_list_of_set B"]
    have "sorted_wrt (<) (sorted_list_of_set B)" "set (sorted_list_of_set B) = B"
         "length (sorted_list_of_set B) = card B"
      by auto
    with B have "sorted_list_of_set B \<in> k_subsets n k" "B = set (sorted_list_of_set B)"
      by (auto simp: k_subsets_def)
    then show "\<exists>x \<in> k_subsets n k. B = set x" by blast
  qed
  then have "card (k_subsets n k) = card ?S"
    by (rule bij_betw_same_card)
  also have "\<dots> = card {0..<int n} choose k"
    by (rule n_subsets) simp
  finally show ?thesis by simp
qed

lemma finite_k_subsets: "finite (k_subsets n k)"
proof -
  have "k_subsets n k \<subseteq> {a. set a \<subseteq> {0..<int n} \<and> length a = k}"
    by (auto simp: k_subsets_def)
  then show ?thesis
    by (rule finite_subset) (simp add: finite_lists_length_eq)
qed

lemma sorted_int_gap:
  fixes a :: "int list"
  assumes "sorted_wrt (<) a" "i < length a"
  shows "a ! 0 + int i \<le> a ! i"
  using assms(2)
proof (induction i)
  case 0 then show ?case by simp
next
  case (Suc i)
  from sorted_wrt_nth_less[OF assms(1), of i "Suc i"] Suc.prems have "a ! i < a ! Suc i" by simp
  with Suc show ?case by simp
qed

lemma colex_rank_ge_last:
  assumes "a \<noteq> []"
  shows "nat (last a) choose length a \<le> colex_rank a"
proof -
  have "a = butlast a @ [last a]" using assms by simp
  then have "colex_rank a = colex_rank_from 1 (butlast a @ [last a])" by (simp add: colex_rank_def)
  also have "\<dots> = colex_rank_from 1 (butlast a) + (nat (last a) choose (1 + length (butlast a)))"
    by (simp add: colex_rank_from_append)
  finally show ?thesis using assms by simp
qed

lemma bitmap_value_append: "bitmap_value (xs @ ys) = bitmap_value xs + bitmap_value ys"
  by (simp add: bitmap_value_def)

lemma bitmap_value_run: "bitmap_value (map (\<lambda>t. int (m + t)) [0..<j]) < 2 ^ (m + j)"
proof (induction j)
  case 0 then show ?case by (simp add: bitmap_value_def)
next
  case (Suc j)
  have "bitmap_value (map (\<lambda>t. int (m + t)) [0..<Suc j]) =
        bitmap_value (map (\<lambda>t. int (m + t)) [0..<j]) + 2 ^ (m + j)"
    by (simp add: bitmap_value_def nat_add_distrib)
  with Suc show ?case by simp
qed

lemma ksub_next_step:
  assumes good: "a \<in> k_subsets n k" and k: "0 < k"
    and rank: "colex_rank a + 1 < n choose k"
  shows "ksub_next n k a \<in> k_subsets n k \<and>
         colex_rank (ksub_next n k a) = colex_rank a + 1 \<and>
         bitmap_value a < bitmap_value (ksub_next n k a)"
proof -
  have len: "length a = k" and srt: "sorted_wrt (<) a" and rng: "set a \<subseteq> {0..<int n}"
    using good by (auto simp: k_subsets_def)
  have a0: "0 \<le> a ! 0" using rng len k by (auto simp: subset_iff)
  have "a ! (k - 1) < int n" using rng len k by (auto simp: subset_iff)
  moreover have "a ! 0 + int (k - 1) \<le> a ! (k - 1)"
    using sorted_int_gap[OF srt, of "k - 1"] len k by simp
  ultimately have guard: "a ! 0 < int n - int k + 1" using k by (simp add: of_nat_diff)
  from ksub_next_shape[OF len k srt a0 guard] obtain j m R where
    a: "a = map (\<lambda>t. int (m + t)) [0..<j] @ int (m + j) # R" and
    a': "ksub_next n k a = map int [0..<j] @ int (m + j + 1) # R" and
    R: "\<forall>x \<in> set R. int (m + j + 1) < x"
    by blast
  let ?a' = "ksub_next n k a"
  have sR: "sorted_wrt (<) R"
    using srt by (subst (asm) a) (simp add: sorted_wrt_append)
  have s': "sorted_wrt (<) ?a'"
    using sR R by (fastforce simp: a' sorted_wrt_append sorted_wrt_map)
  have l': "length ?a' = k"
    using len by (subst (asm) a) (simp add: a')
  have r0: "colex_rank a = (\<Sum>t<j. (m + t) choose Suc t) + ((m + j) choose Suc j) + colex_rank_from (Suc (Suc j)) R"
    using colex_rank_from_run[of 0 m j]
    by (subst a) (simp add: colex_rank_def colex_rank_from_append del: of_nat_add binomial_Suc_Suc)
  have n1: "nat (1 + int (m + j)) = Suc (m + j)" by simp
  have r1: "colex_rank ?a' = (Suc (m + j) choose Suc j) + colex_rank_from (Suc (Suc j)) R"
    using colex_rank_from_indicator[of 0 j]
    by (simp add: a' colex_rank_def colex_rank_from_append n1 del: of_nat_add binomial_Suc_Suc)
  have rk: "colex_rank ?a' = colex_rank a + 1"
    using hockey[where m = m and j = j] by (simp add: r0 r1)
  have b0: "bitmap_value a = bitmap_value (map (\<lambda>t. int (m + t)) [0..<j]) + 2 ^ (m + j) + bitmap_value R"
    by (subst a) (simp add: bitmap_value_append, simp add: bitmap_value_def)
  have b1: "bitmap_value ?a' = bitmap_value (map int [0..<j]) + 2 ^ (m + j + 1) + bitmap_value R"
    by (simp add: a' bitmap_value_append, simp add: bitmap_value_def nat_add_distrib)
  have bm: "bitmap_value a < bitmap_value ?a'"
    using bitmap_value_run[of m j] by (simp add: b0 b1)
  have ne: "?a' \<noteq> []" using l' k by auto
  have lastlt: "last ?a' < int n"
  proof (rule ccontr)
    assume "\<not> last ?a' < int n"
    then have "n \<le> nat (last ?a')" by simp
    then have "n choose k \<le> nat (last ?a') choose k" by (rule binomial_right_mono)
    also have "\<dots> \<le> colex_rank ?a'" using colex_rank_ge_last[OF ne] by (simp add: l')
    finally show False using rank rk by simp
  qed
  have first: "0 \<le> ?a' ! 0"
    by (cases j) (simp_all add: a' nth_append upt_rec)
  have "set ?a' \<subseteq> {0..<int n}"
  proof
    fix x assume "x \<in> set ?a'"
    then obtain i where i: "i < k" "x = ?a' ! i" by (auto simp: in_set_conv_nth l')
    have "?a' ! 0 \<le> x"
      using sorted_int_gap[OF s', of i] i l' by simp
    moreover have "x \<le> last ?a'"
    proof (cases "i = k - 1")
      case True
      then show ?thesis using i ne l' by (simp add: last_conv_nth)
    next
      case False
      then have "?a' ! i < ?a' ! (k - 1)"
        using sorted_wrt_nth_less[OF s', of i "k - 1"] i l' by simp
      then show ?thesis using i ne l' by (simp add: last_conv_nth)
    qed
    ultimately show "x \<in> {0..<int n}" using first lastlt by simp
  qed
  with s' l' rk bm show ?thesis by (simp add: k_subsets_def)
qed

lemma ksub_iterate_props:
  assumes "a \<in> k_subsets n k" "0 < k" "colex_rank a + m < n choose k"
  shows "length (ksub_iterate n k m a) = m \<and>
         (\<forall>i<m. ksub_iterate n k m a ! i \<in> k_subsets n k \<and>
                colex_rank (ksub_iterate n k m a ! i) = colex_rank a + 1 + i) \<and>
         sorted_wrt (\<lambda>x y. bitmap_value x < bitmap_value y) (a # ksub_iterate n k m a)"
  using assms
proof (induction m arbitrary: a)
  case 0
  then show ?case by simp
next
  case (Suc m)
  let ?a' = "ksub_next n k a"
  from Suc.prems have "colex_rank a + 1 < n choose k" by simp
  from ksub_next_step[OF Suc.prems(1,2) this]
  have st: "?a' \<in> k_subsets n k" "colex_rank ?a' = colex_rank a + 1" "bitmap_value a < bitmap_value ?a'"
    by auto
  from Suc.prems(3) st(2) have "colex_rank ?a' + m < n choose k" by simp
  from Suc.IH[OF st(1) Suc.prems(2) this]
  have IH: "length (ksub_iterate n k m ?a') = m"
    "\<And>i. i < m \<Longrightarrow> ksub_iterate n k m ?a' ! i \<in> k_subsets n k \<and>
        colex_rank (ksub_iterate n k m ?a' ! i) = colex_rank ?a' + 1 + i"
    "sorted_wrt (\<lambda>x y. bitmap_value x < bitmap_value y) (?a' # ksub_iterate n k m ?a')"
    by auto
  have nth: "ksub_iterate n k (Suc m) a ! i \<in> k_subsets n k \<and>
             colex_rank (ksub_iterate n k (Suc m) a ! i) = colex_rank a + 1 + i" if "i < Suc m" for i
  proof (cases i)
    case 0
    then show ?thesis using st by simp
  next
    case (Suc i')
    with that IH(2)[of i'] st(2) show ?thesis by simp
  qed
  have "\<forall>y \<in> set (ksub_iterate n k m ?a'). bitmap_value a < bitmap_value y"
    using IH(3) st(3) by auto
  with IH(1,3) st(3) nth show ?case by simp
qed

lemma first_subset: "i4vec_indicator0 k (replicate k 0) = map int [0..<k]"
  using i4vec_indicator0_eq[of k "replicate k 0"] by simp

lemma first_subset_good: "k \<le> n \<Longrightarrow> map int [0..<k] \<in> k_subsets n k"
  by (auto simp: k_subsets_def sorted_wrt_map)

lemma first_subset_rank: "colex_rank (map int [0..<k]) = 0"
  using colex_rank_from_indicator[of 0 k] by (simp add: colex_rank_def)

lemma Subset_CCP_inputs_props:
  assumes "0 < k" "k \<le> n"
  shows "distinct (Subset_CCP_inputs n k (int (n choose k))) \<and>
         set (Subset_CCP_inputs n k (int (n choose k))) = k_subsets n k \<and>
         sorted_wrt (\<lambda>a b. bitmap_value a < bitmap_value b) (Subset_CCP_inputs n k (int (n choose k)))"
proof -
  let ?a0 = "map int [0..<k]"
  let ?N = "n choose k"
  let ?L = "?a0 # ksub_iterate n k (?N - 1) ?a0"
  have N: "0 < ?N" using assms(2) by simp
  have L: "Subset_CCP_inputs n k (int ?N) = ?L"
    using N by (simp add: Subset_CCP_inputs_def first_subset nat_diff_distrib')
  have "colex_rank ?a0 + (?N - 1) < ?N" using N by (simp add: first_subset_rank)
  from ksub_iterate_props[OF first_subset_good[OF assms(2)] assms(1) this]
  have it: "length (ksub_iterate n k (?N - 1) ?a0) = ?N - 1"
    "\<And>i. i < ?N - 1 \<Longrightarrow> ksub_iterate n k (?N - 1) ?a0 ! i \<in> k_subsets n k \<and>
        colex_rank (ksub_iterate n k (?N - 1) ?a0 ! i) = Suc i"
    "sorted_wrt (\<lambda>x y. bitmap_value x < bitmap_value y) ?L"
    by (auto simp: first_subset_rank)
  have len: "length ?L = ?N" using it(1) N by simp
  have nth: "?L ! i \<in> k_subsets n k \<and> colex_rank (?L ! i) = i" if "i < ?N" for i
  proof (cases i)
    case 0
    then show ?thesis using first_subset_good[OF assms(2)] by (simp add: first_subset_rank)
  next
    case (Suc i')
    with that it(2)[of i'] show ?thesis by simp
  qed
  have dist: "distinct ?L"
    unfolding distinct_conv_nth
  proof (intro allI impI)
    fix i j assume "i < length ?L" "j < length ?L" "i \<noteq> j"
    with nth[of i] nth[of j] len show "?L ! i \<noteq> ?L ! j" by metis
  qed
  have sub: "set ?L \<subseteq> k_subsets n k"
  proof
    fix x assume "x \<in> set ?L"
    then obtain i where "i < length ?L" "x = ?L ! i" by (metis in_set_conv_nth)
    with nth[of i] len show "x \<in> k_subsets n k" by simp
  qed
  have "card (set ?L) = card (k_subsets n k)"
    using dist len by (simp only: distinct_card card_k_subsets)
  with sub have "set ?L = k_subsets n k"
    by (intro card_subset_eq finite_k_subsets)
  with dist it(3) show ?thesis by (simp only: L)
qed

lemma central_28: "(28 :: nat) choose 14 = 40116600"
proof -
  have c1: "(15 :: nat) choose 1 = 15" by (simp add: choose_one)
  have c2: "(16 :: nat) choose 2 = 120"
    using times_binomial_minus1_eq [of 2 16] by (simp add: c1)
  have c3: "(17 :: nat) choose 3 = 680"
    using times_binomial_minus1_eq [of 3 17] by (simp add: c2)
  have c4: "(18 :: nat) choose 4 = 3060"
    using times_binomial_minus1_eq [of 4 18] by (simp add: c3)
  have c5: "(19 :: nat) choose 5 = 11628"
    using times_binomial_minus1_eq [of 5 19] by (simp add: c4)
  have c6: "(20 :: nat) choose 6 = 38760"
    using times_binomial_minus1_eq [of 6 20] by (simp add: c5)
  have c7: "(21 :: nat) choose 7 = 116280"
    using times_binomial_minus1_eq [of 7 21] by (simp add: c6)
  have c8: "(22 :: nat) choose 8 = 319770"
    using times_binomial_minus1_eq [of 8 22] by (simp add: c7)
  have c9: "(23 :: nat) choose 9 = 817190"
    using times_binomial_minus1_eq [of 9 23] by (simp add: c8)
  have c10: "(24 :: nat) choose 10 = 1961256"
    using times_binomial_minus1_eq [of 10 24] by (simp add: c9)
  have c11: "(25 :: nat) choose 11 = 4457400"
    using times_binomial_minus1_eq [of 11 25] by (simp add: c10)
  have c12: "(26 :: nat) choose 12 = 9657700"
    using times_binomial_minus1_eq [of 12 26] by (simp add: c11)
  have c13: "(27 :: nat) choose 13 = 20058300"
    using times_binomial_minus1_eq [of 13 27] by (simp add: c12)
  have c14: "(28 :: nat) choose 14 = 40116600"
    using times_binomial_minus1_eq [of 14 28] by (simp add: c13)
  show ?thesis by (rule c14)
qed

lemma binomial_bound_29:
  assumes "n \<le> 29"
  shows "n * ((n - 1) choose i) < 2 ^ 31"
proof -
  have "(n - 1) choose i \<le> 28 choose i"
    using assms by (intro binomial_right_mono) simp
  also have "\<dots> \<le> 28 choose (28 div 2)"
    by (rule binomial_maximum)
  also have "\<dots> = 40116600" by (simp add: central_28)
  finally have "n * ((n - 1) choose i) \<le> 29 * 40116600"
    using assms by (intro mult_mono) auto
  then show ?thesis by simp
qed

lemma binomial_step_int:
  assumes "i < n"
  shows "int (n choose i) * (int n - int (Suc i) + 1) = int (Suc i) * int (n choose Suc i)"
proof -
  have e1: "(n - i) * (n choose i) = n * ((n - 1) choose i)"
    by (rule binomial_absorb_comp)
  have e2: "Suc i * (n choose Suc i) = n * ((n - 1) choose i)"
    using times_binomial_minus1_eq[of "Suc i" n] by (simp del: binomial_Suc_Suc)
  have "int n - int (Suc i) + 1 = int (n - i)" using assms by simp
  then have "int (n choose i) * (int n - int (Suc i) + 1) = int ((n - i) * (n choose i))"
    by (simp only: of_nat_mult mult.commute)
  also have "\<dots> = int (Suc i * (n choose Suc i))"
    by (simp only: e1 e2)
  finally show ?thesis by (simp only: of_nat_mult)
qed

lemma binomial_step_range:
  assumes "n \<le> 29"
  shows "int_range (int (Suc i) * int (n choose Suc i))"
proof -
  have e2: "Suc i * (n choose Suc i) = n * ((n - 1) choose i)"
    using times_binomial_minus1_eq[of "Suc i" n] by (simp del: binomial_Suc_Suc)
  have "Suc i * (n choose Suc i) < 2 ^ 31"
    using binomial_bound_29[OF assms, of i] by (simp only: e2)
  then have "int (Suc i * (n choose Suc i)) < int (2 ^ 31)"
    by (simp only: of_nat_less_iff)
  then have "int (Suc i) * int (n choose Suc i) < 2 ^ 31"
    by (simp only: of_nat_mult of_nat_power of_nat_numeral)
  moreover have "- (2 ^ 31) \<le> (0 :: int)" by simp
  moreover have "0 \<le> int (Suc i) * int (n choose Suc i)"
    by (intro mult_nonneg_nonneg of_nat_0_le_iff)
  ultimately show ?thesis
    unfolding int_range_def by (intro conjI) (rule order_trans, assumption+)
qed

lemma nChoosek_loop_step:
  assumes "n \<le> 29" "i < n"
  shows "nChoosek_loop (int n) (Suc i # is) (int (n choose i)) =
         nChoosek_loop (int n) is (int (n choose Suc i))"
proof -
  have dv: "int (Suc i) * int (n choose Suc i) div int (Suc i) = int (n choose Suc i)"
    by (rule nonzero_mult_div_cancel_left) simp
  show ?thesis
    using binomial_step_range[OF assms(1), of i]
    by (simp only: nChoosek_loop.simps binomial_step_int[OF assms(2)] dv if_True)
qed

lemma nChoosek_loop_binomial:
  assumes "n \<le> 29" "m \<le> n"
  shows "i \<le> m \<Longrightarrow> nChoosek_loop (int n) [Suc i..<Suc m] (int (n choose i)) = Some (int (n choose m))"
proof (induction "m - i" arbitrary: i)
  case 0
  then have "i = m" by simp
  then show ?case by simp
next
  case (Suc d)
  then have im: "i < m" by simp
  have u: "[Suc i..<Suc m] = Suc i # [Suc (Suc i)..<Suc m]"
    using im by (simp add: upt_rec)
  have iln: "i < n" using im assms(2) by simp
  have "d = m - Suc i" using Suc.hyps(2) by simp
  from Suc.hyps(1)[OF this] im
  have "nChoosek_loop (int n) [Suc (Suc i)..<Suc m] (int (n choose Suc i)) = Some (int (n choose m))"
    by simp
  then show ?case
    by (simp only: u nChoosek_loop_step[OF assms(1) iln])
qed

lemma nChoosek_binomial:
  assumes "n \<le> 29" "k \<le> n"
  shows "nChoosek (int n) (int k) = Some (int (n choose k))"
proof -
  define k' where "k' = (if k * 2 > n then n - k else k)"
  have k': "n choose k' = n choose k" "k' \<le> n"
    using assms(2) by (auto simp: k'_def binomial_symmetric[of k n])
  have conv: "(if int k * 2 > int n then int n - int k else int k) = int k'"
    using assms(2) by (auto simp: k'_def)
  have g: "\<not> int k > int n" using assms(2) by simp
  have unf: "nChoosek (int n) (int k) =
      (if int k' = 0 then Some 1 else nChoosek_loop (int n) [2..<nat (int k') + 1] (int n))"
    by (simp only: nChoosek_def conv Let_def g if_False)
  show ?thesis
  proof (cases "k' = 0")
    case True
    with k'(1) unf show ?thesis by simp
  next
    case False
    then have "Suc 0 \<le> k'" by simp
    from nChoosek_loop_binomial[OF assms(1) k'(2) this]
    have "nChoosek_loop (int n) [Suc (Suc 0)..<Suc k'] (int (n choose Suc 0)) = Some (int (n choose k))"
      by (simp only: k'(1))
    moreover have "[2..<nat (int k') + 1] = [Suc (Suc 0)..<Suc k']"
      by (simp add: numeral_2_eq_2)
    ultimately show ?thesis
      using False by (simp only: unf) simp
  qed
qed

lemma bitmap_value_range:
  assumes "a \<in> k_subsets n k" "1 \<le> k" "k < n"
  shows "1 \<le> bitmap_value a \<and> bitmap_value a \<le> 2 ^ n - 2"
proof -
  have len: "length a = k" and srt: "sorted_wrt (<) a" and rng: "set a \<subseteq> {0..<int n}"
    using assms(1) by (auto simp: k_subsets_def)
  have dist: "distinct a" using srt by (simp add: strict_sorted_iff)
  define A where "A = nat ` set a"
  have inj: "inj_on nat (set a)"
  proof (rule inj_onI)
    fix x y assume "x \<in> set a" "y \<in> set a" "nat x = nat y"
    moreover from this rng have "0 \<le> x" "0 \<le> y" by auto
    ultimately show "x = y" by simp
  qed
  have bv: "bitmap_value a = (\<Sum>i\<in>A. 2 ^ i)"
    unfolding bitmap_value_def A_def
    by (simp add: sum_list_distinct_conv_sum_set[OF dist] sum.reindex[OF inj])
  have sub: "A \<subseteq> {..<n}"
  proof
    fix i assume "i \<in> A"
    then obtain x where "x \<in> set a" "i = nat x" by (auto simp: A_def)
    moreover from this rng have "0 \<le> x" "x < int n" by auto
    ultimately show "i \<in> {..<n}" by simp
  qed
  have cA: "card A = k" using dist len inj by (simp add: A_def card_image distinct_card)
  have "A \<noteq> {..<n}" using cA assms(3) by auto
  with sub obtain y where y: "y < n" "y \<notin> A" by auto
  have ne: "A \<noteq> {}" using cA assms(2) by auto
  then obtain x where x: "x \<in> A" by auto
  have fin: "finite A" using sub by (rule finite_subset) simp
  have "(2::nat) ^ x \<le> (\<Sum>i\<in>A. 2 ^ i)"
    using x fin by (intro member_le_sum) auto
  moreover have "(1::nat) \<le> 2 ^ x" by simp
  ultimately have low: "1 \<le> bitmap_value a"
    unfolding bv by (rule order_trans[rotated])
  have "A \<subseteq> {..<n} - {y}" using sub y by auto
  then have "(\<Sum>i\<in>A. (2::nat) ^ i) \<le> (\<Sum>i\<in>{..<n} - {y}. 2 ^ i)"
    by (intro sum_mono2) auto
  also have "\<dots> = (\<Sum>i<n. 2 ^ i) - 2 ^ y"
    using y(1) by (subst sum_diff1_nat) simp
  also have "(\<Sum>i<n. (2::nat) ^ i) = 2 ^ n - 1"
    by (induction n) auto
  also have "(2::nat) ^ n - 1 - 2 ^ y \<le> 2 ^ n - 2"
  proof -
    have "(1::nat) \<le> 2 ^ y" by simp
    then show ?thesis by linarith
  qed
  finally show ?thesis using low by (simp add: bv)
qed

text \<open>
  Claim C7, as amended. For at most \<open>29\<close> leaves and each size \<open>k\<close> from \<open>1\<close>
  to \<open>n - 1\<close>, \<open>nChoosek\<close> returns the binomial coefficient, and the arrays handed
  to \<open>Is_Cluster\<close> are all the \<open>k\<close>-subsets of the \<open>n\<close> leaves, each exactly once,
  in increasing order of their membership bitmap read as a number (leaf \<open>i\<close> is bit
  \<open>i\<close>), which lies between \<open>1\<close> and \<open>2\<^sup>n - 2\<close>. This is the co-lexicographic
  order of the index arrays, not the lexicographic one.
\<close>

theorem ksubset_enumeration:
  assumes "1 \<le> k" and "k < n" and "n \<le> 29"
  shows "nChoosek (int n) (int k) = Some (int (n choose k)) \<and>
         distinct (Subset_CCP_inputs n k (int (n choose k))) \<and>
         set (Subset_CCP_inputs n k (int (n choose k))) = k_subsets n k \<and>
         sorted_wrt (\<lambda>a b. bitmap_value a < bitmap_value b)
           (Subset_CCP_inputs n k (int (n choose k))) \<and>
         (\<forall>a \<in> k_subsets n k. 1 \<le> bitmap_value a \<and> bitmap_value a \<le> 2 ^ n - 2)"
proof -
  have "0 < k" "k \<le> n" using assms by simp_all
  from Subset_CCP_inputs_props [OF this] nChoosek_binomial [OF assms(3) \<open>k \<le> n\<close>]
       bitmap_value_range [OF _ assms(1,2)]
  show ?thesis by simp
qed

theorem ksubset_enumeration_witness:
  "nChoosek 4 2 = Some 6 \<and>
   distinct (Subset_CCP_inputs 4 2 6) \<and>
   set (Subset_CCP_inputs 4 2 6) = k_subsets 4 2 \<and>
   sorted_wrt (\<lambda>a b. bitmap_value a < bitmap_value b) (Subset_CCP_inputs 4 2 6)"
proof -
  have c: "int (4 choose 2) = 6"
    by (simp add: choose_two)
  from ksubset_enumeration [of 2 4] show ?thesis
    by (simp add: c)
qed

text \<open>
  The claim as stated fails for four leaves and \<open>k = 2\<close>: the third array is
  \<open>[1, 2]\<close> and the fourth \<open>[0, 3]\<close>, which comes first in the lexicographic order.
  For thirty leaves and \<open>k = 15\<close> the product in \<open>nChoosek\<close> leaves the range of
  \<open>int\<close>.
\<close>

theorem not_lexicographic_counterexample:
  "nChoosek 4 2 = Some 6 \<and>
   Subset_CCP_inputs 4 2 6 = [[0, 1], [0, 2], [1, 2], [0, 3], [1, 3], [2, 3]] \<and>
   lex_before [0, 3] [1, 2] \<and>
   \<not> sorted_wrt lex_before (Subset_CCP_inputs 4 2 6) \<and>
   nChoosek 30 15 = None"
  by code_simp

end
